theory Spec2Isabelle
  imports Main "HOL-Library.Sublist"
begin

section \<open>Python strings\<close>

text \<open>
  A Python \<open>str\<close> is modelled as a \<open>string\<close>: a list of characters, each one a code
  point below 256. On that range Python's character predicates and case mapping are the
  ones below: the decimal digits of \<open>\d\<close> are \<open>0\<close>..\<open>9\<close>; the white space of
  \<open>str.strip\<close> and of \<open>\s\<close> is tab, line feed, vertical tab, form feed, carriage
  return, the four separators 28..31, space, NEL (133) and the no-break space (160);
  \<open>str.lower\<close> moves \<open>A\<close>..\<open>Z\<close> and the Latin-1 capitals 192..222 (not the
  multiplication sign 215) up by 32; under \<open>re.IGNORECASE\<close> the class \<open>[a-z]\<close> (or
  \<open>[A-Z]\<close>) holds the characters whose lower case is an ASCII letter.
\<close>

definition is_upper :: "char \<Rightarrow> bool" where
  "is_upper c =
     (let n = (of_char c :: nat)
      in (65 \<le> n \<and> n \<le> 90) \<or> (192 \<le> n \<and> n \<le> 222 \<and> n \<noteq> 215))"

definition lower_char :: "char \<Rightarrow> char" where
  "lower_char c = (if is_upper c then char_of ((of_char c :: nat) + 32) else c)"

definition lower :: "string \<Rightarrow> string" where
  "lower s = map lower_char s"

definition is_digit :: "char \<Rightarrow> bool" where
  "is_digit c = (let n = (of_char c :: nat) in 48 \<le> n \<and> n \<le> 57)"

definition is_letter :: "char \<Rightarrow> bool" where
  "is_letter c = (let n = (of_char (lower_char c) :: nat) in 97 \<le> n \<and> n \<le> 122)"

definition is_space :: "char \<Rightarrow> bool" where
  "is_space c = ((of_char c :: nat) \<in> set [9, 10, 11, 12, 13, 28, 29, 30, 31, 32, 133, 160])"

definition strip :: "string \<Rightarrow> string" where
  "strip s = rev (dropWhile is_space (rev (dropWhile is_space s)))"

fun join :: "string \<Rightarrow> string list \<Rightarrow> string" where
  "join sep [] = []"
| "join sep [x] = x"
| "join sep (x # y # ys) = x @ sep @ join sep (y # ys)"

definition replace_char :: "char \<Rightarrow> char \<Rightarrow> string \<Rightarrow> string" where
  "replace_char old new s = map (\<lambda>c. if c = old then new else c) s"

text \<open>\<open>if x:\<close> on a value that is \<open>None\<close> or a string: false on \<open>None\<close> and on \<open>""\<close>.\<close>

definition truthy :: "string option \<Rightarrow> bool" where
  "truthy v = (case v of None \<Rightarrow> False | Some s \<Rightarrow> s \<noteq> [])"

section \<open>Python dictionaries, sets and errors\<close>

text \<open>
  The records of the data set are Python dictionaries with string keys and string
  values, written to and read from JSON. A dictionary is an association list;
  \<open>d[k]\<close> raises \<open>KeyError\<close> on a missing key and \<open>d.get(k, default)\<close> does not.
  A set that the program iterates over is a duplicate-free list, in insertion order.
\<close>

datatype error = KeyError string

type_synonym pydict = "(string \<times> string) list"

definition dict_index :: "pydict \<Rightarrow> string \<Rightarrow> error + string" where
  "dict_index d k = (case map_of d k of None \<Rightarrow> Inl (KeyError k) | Some v \<Rightarrow> Inr v)"

definition dict_get :: "pydict \<Rightarrow> string \<Rightarrow> string \<Rightarrow> string" where
  "dict_get d k dflt = (case map_of d k of None \<Rightarrow> dflt | Some v \<Rightarrow> v)"

definition set_add :: "'a \<Rightarrow> 'a list \<Rightarrow> 'a list" where
  "set_add x xs = (if x \<in> set xs then xs else xs @ [x])"

section \<open>Regular expressions\<close>

text \<open>
  Every pattern of the program is a sequence of character classes, each with a greedy
  repetition \<open>{lo,hi}\<close> (a plain class is \<open>{1,1}\<close>, \<open>?\<close> is \<open>{0,1}\<close>, \<open>*\<close> is
  \<open>{0,}\<close>), or an alternation of such sequences. \<open>match_here\<close> is the backtracking
  matcher of \<open>re\<close> at one position: each class first takes as many characters as it may
  and gives them back one at a time while the rest of the pattern fails; the result is
  the number of characters each class took. \<open>search\<close> tries the positions from left to
  right, \<open>findall\<close> collects the matches from left to right, each search starting where
  the last match ended. All patterns are compiled with \<open>re.IGNORECASE\<close>, so a literal
  character stands for the class of the characters with its lower case.
\<close>

datatype atom = Atom "char \<Rightarrow> bool" nat "nat option"

definition literal :: "char \<Rightarrow> char \<Rightarrow> bool" where
  "literal c x = (lower_char x = lower_char c)"

definition lit :: "char \<Rightarrow> atom" where
  "lit c = Atom (literal c) 1 (Some 1)"

definition repetitions :: "atom \<Rightarrow> string \<Rightarrow> nat list" where
  "repetitions a s =
     (case a of Atom P lo hi \<Rightarrow>
        (let run = length (takeWhile P s);
             most = (case hi of None \<Rightarrow> run | Some h \<Rightarrow> min h run)
         in rev [lo ..< Suc most]))"

fun first_some :: "('a \<Rightarrow> 'b option) \<Rightarrow> 'a list \<Rightarrow> 'b option" where
  "first_some f [] = None"
| "first_some f (x # xs) = (case f x of Some y \<Rightarrow> Some y | None \<Rightarrow> first_some f xs)"

primrec match_here :: "atom list \<Rightarrow> string \<Rightarrow> nat list option" where
  "match_here [] s = Some []"
| "match_here (a # rest) s =
     first_some (\<lambda>k. map_option ((#) k) (match_here rest (drop k s))) (repetitions a s)"

fun search :: "atom list \<Rightarrow> string \<Rightarrow> (nat \<times> nat list) option" where
  "search p [] = map_option (Pair 0) (match_here p [])"
| "search p (c # s) =
     (case match_here p (c # s) of
        Some ns \<Rightarrow> Some (0, ns)
      | None \<Rightarrow> map_option (\<lambda>(i, ns). (Suc i, ns)) (search p s))"

definition re_search :: "atom list \<Rightarrow> string \<Rightarrow> bool" where
  "re_search p s = (search p s \<noteq> None)"

text \<open>\<open>group(1)\<close> of a match whose group is the last class of the pattern.\<close>

definition group_last :: "string \<Rightarrow> nat \<times> nat list \<Rightarrow> string" where
  "group_last s m = (case m of (i, ns) \<Rightarrow> take (last ns) (drop (i + sum_list (butlast ns)) s))"

text \<open>
  \<open>findall_from p skip s\<close> scans \<open>s\<close> with \<open>skip\<close> characters of the last match still to
  pass over.
\<close>

fun findall_from :: "atom list \<Rightarrow> nat \<Rightarrow> string \<Rightarrow> string list" where
  "findall_from p skip [] = (if skip = 0 \<and> match_here p [] \<noteq> None then [[]] else [])"
| "findall_from p (Suc skip) (c # s) = findall_from p skip s"
| "findall_from p 0 (c # s) =
     (case match_here p (c # s) of
        None \<Rightarrow> findall_from p 0 s
      | Some ns \<Rightarrow> take (sum_list ns) (c # s) # findall_from p (sum_list ns - 1) s)"

definition findall :: "atom list \<Rightarrow> string \<Rightarrow> string list" where
  "findall p s = findall_from p 0 s"

text \<open>
  What a pattern denotes, stated without the matcher: a string is in the language of a
  sequence of classes when it splits into one block per class, each block made of
  characters of its class and of a length the repetition allows. A string has a match
  when one of its substrings is in the language.
\<close>

fun allowed :: "atom \<Rightarrow> string \<Rightarrow> bool" where
  "allowed (Atom P lo hi) b =
     (list_all P b \<and> lo \<le> length b \<and> (case hi of None \<Rightarrow> True | Some h \<Rightarrow> length b \<le> h))"

primrec lang :: "atom list \<Rightarrow> string \<Rightarrow> bool" where
  "lang [] t = (t = [])"
| "lang (a # rest) t = (\<exists>b u. t = b @ u \<and> allowed a b \<and> lang rest u)"

definition has_match :: "atom list \<Rightarrow> string \<Rightarrow> bool" where
  "has_match p s = (\<exists>t. sublist t s \<and> lang p t)"

section \<open>urllib.parse\<close>

text \<open>
  \<open>urlparse(url).scheme\<close> and \<open>urlparse(url).netloc\<close>, as \<open>urlsplit\<close> computes them: the
  scheme is what stands before the first colon when that starts with an ASCII letter and
  holds only letters, digits, \<open>+\<close>, \<open>-\<close> and \<open>.\<close>; the network location is what follows
  \<open>//\<close> up to the first \<open>/\<close>, \<open>?\<close> or \<open>#\<close>. The checks of \<open>urlsplit\<close> that raise
  \<open>ValueError\<close> (a bracket without its partner in the network location) and its removal of
  tabs, line breaks and leading control characters are not modelled: the URLs are taken to
  be free of these.
\<close>

definition scheme_char :: "char \<Rightarrow> bool" where
  "scheme_char c = (is_letter c \<or> is_digit c \<or> c \<in> set ''+-.'')"

definition split_scheme :: "string \<Rightarrow> string \<times> string" where
  "split_scheme url =
     (let head = takeWhile (\<lambda>c. c \<noteq> CHR '':'') url
      in if length head < length url \<and> head \<noteq> [] \<and> is_letter (hd head) \<and> list_all scheme_char head
         then (lower head, drop (Suc (length head)) url)
         else ([], url))"

definition scheme :: "string \<Rightarrow> string" where
  "scheme url = fst (split_scheme url)"

definition netloc :: "string \<Rightarrow> string" where
  "netloc url =
     (let rest = snd (split_scheme url)
      in if take 2 rest = ''//'' then takeWhile (\<lambda>c. c \<notin> set ''/?#'') (drop 2 rest) else [])"

section \<open>The parse tree of BeautifulSoup\<close>

text \<open>
  A parsed page is a tree of tags (name, attributes, children) and strings; the
  \<open>BeautifulSoup\<close> object is its root tag. \<open>strings\<close> lists the strings below a node in
  document order; \<open>get_text()\<close> concatenates them, \<open>get_text(separator=' ', strip=True)\<close>
  strips each one, drops the empty ones and joins the others with a space.
  \<open>find_in P\<close> is \<open>find\<close>: the first tag in document order that satisfies \<open>P\<close>,
  returned with the siblings that follow it, which is where \<open>find_next_sibling\<close> looks.
\<close>

datatype node = NavigableString string | Tag string "(string \<times> string) list" "node list"

fun strings :: "node \<Rightarrow> string list" where
  "strings (NavigableString s) = [s]"
| "strings (Tag name attrs children) = concat (map strings children)"

definition get_text :: "node \<Rightarrow> string" where
  "get_text n = concat (strings n)"

definition get_text_stripped :: "node \<Rightarrow> string" where
  "get_text_stripped n = join '' '' (filter (\<lambda>s. s \<noteq> []) (map strip (strings n)))"

fun contents :: "node \<Rightarrow> node list" where
  "contents (NavigableString s) = []"
| "contents (Tag name attrs children) = children"

fun tag_name :: "node \<Rightarrow> string option" where
  "tag_name (NavigableString s) = None"
| "tag_name (Tag name attrs children) = Some name"

definition named :: "string list \<Rightarrow> node \<Rightarrow> bool" where
  "named names n = (case tag_name n of None \<Rightarrow> False | Some name \<Rightarrow> name \<in> set names)"

fun find_in :: "(node \<Rightarrow> bool) \<Rightarrow> node list \<Rightarrow> (node \<times> node list) option" where
  "find_in P [] = None"
| "find_in P (NavigableString s # rest) = find_in P rest"
| "find_in P (Tag name attrs children # rest) =
     (if P (Tag name attrs children) then Some (Tag name attrs children, rest)
      else case find_in P children of
             Some r \<Rightarrow> Some r
           | None \<Rightarrow> find_in P rest)"

definition find_next_sibling :: "string list \<Rightarrow> node list \<Rightarrow> node option" where
  "find_next_sibling names siblings = List.find (named names) siblings"

text \<open>\<open>find_all('a', href=True)\<close>, each tag replaced by its \<open>href\<close>.\<close>

fun find_all_a_href :: "node list \<Rightarrow> string list" where
  "find_all_a_href [] = []"
| "find_all_a_href (NavigableString s # rest) = find_all_a_href rest"
| "find_all_a_href (Tag name attrs children # rest) =
     (case (if name = ''a'' then map_of attrs ''href'' else None) of
        Some href \<Rightarrow> [href]
      | None \<Rightarrow> [])
     @ find_all_a_href children @ find_all_a_href rest"

text \<open>The nodes below a list of nodes, in document order.\<close>

fun document_order :: "node list \<Rightarrow> node list" where
  "document_order [] = []"
| "document_order (NavigableString s # rest) = NavigableString s # document_order rest"
| "document_order (Tag name attrs children # rest) =
     Tag name attrs children # document_order children @ document_order rest"

section \<open>The network and the libraries\<close>

text \<open>
  The program reaches the outside through three library calls, which are parameters of
  the model. \<open>requests_get w n url\<close> is what \<open>requests.get(url, timeout=10)\<close> produces
  when \<open>n\<close> requests have been made before: a response with its status code and text, or
  one of the exceptions of \<open>requests.exceptions.RequestException\<close>. \<open>BeautifulSoup w\<close>
  parses a text and \<open>urljoin w\<close> resolves a reference against a base.
  \<open>Response.raise_for_status\<close> raises \<open>HTTPError\<close>, a \<open>RequestException\<close>, on the
  status codes 400 to 599.
\<close>

datatype http_result = Response nat string | ConnectionError | Timeout

record world =
  requests_get :: "nat \<Rightarrow> string \<Rightarrow> http_result"
  BeautifulSoup :: "string \<Rightarrow> node"
  urljoin :: "string \<Rightarrow> string \<Rightarrow> string"

definition raise_for_status :: "nat \<Rightarrow> bool" where
  "raise_for_status status = (400 \<le> status \<and> status < 600)"

section \<open>scraper.py\<close>

text \<open>
  \<open>get_html(url)\<close>: the text of the response, or \<open>None\<close> when \<open>requests\<close> raised. The
  second component is the list of the URLs requested so far, with this one added.
\<close>

definition get_html :: "world \<Rightarrow> string list \<Rightarrow> string \<Rightarrow> string option \<times> string list" where
  "get_html w fetched url =
     (case requests_get w (length fetched) url of
        Response status text \<Rightarrow> if raise_for_status status then None else Some text
      | ConnectionError \<Rightarrow> None
      | Timeout \<Rightarrow> None,
      fetched @ [url])"

definition COURSE_LINK_KEYWORDS :: "atom list list" where
  "COURSE_LINK_KEYWORDS =
     [map lit ''courses/'', map lit ''subjects/'', map lit ''syllabus/'', map lit ''curriculum/'',
      map lit ''program/'', map lit ''academic/'', map lit ''course-detail/'',
      [Atom is_digit 2 (Some 4), Atom is_letter 0 (Some 1), lit CHR ''-'']]"

text \<open>The pattern \<open>\d{2,4}[a-z]?\<close> and the alternation \<open>#|javascript|mailto\<close>.\<close>

definition COURSE_CODE_IN_URL :: "atom list" where
  "COURSE_CODE_IN_URL = [Atom is_digit 2 (Some 4), Atom is_letter 0 (Some 1)]"

definition EXCLUDED_MARKERS :: "atom list list" where
  "EXCLUDED_MARKERS = [map lit ''#'', map lit ''javascript'', map lit ''mailto'']"

definition has_keyword :: "string \<Rightarrow> bool" where
  "has_keyword url = list_ex (\<lambda>keyword. re_search keyword url) COURSE_LINK_KEYWORDS"

definition has_excluded_marker :: "string \<Rightarrow> bool" where
  "has_excluded_marker url = list_ex (\<lambda>marker. re_search marker url) EXCLUDED_MARKERS"

text \<open>The body of the loop of \<open>find_course_links\<close>, and the function.\<close>

definition add_course_link :: "string list \<Rightarrow> string \<Rightarrow> string list" where
  "add_course_link links absolute_url =
     (if has_keyword absolute_url
      then if re_search COURSE_CODE_IN_URL absolute_url then set_add absolute_url links
           else if \<not> has_excluded_marker absolute_url then set_add absolute_url links
           else links
      else links)"

definition find_course_links :: "world \<Rightarrow> string \<Rightarrow> string \<Rightarrow> string list" where
  "find_course_links w html base_url =
     foldl (\<lambda>links href. add_course_link links (urljoin w base_url href)) []
       (find_all_a_href (contents (BeautifulSoup w html)))"

text \<open>
  \<open>scrape_prerequisites\<close>. The patterns are \<open>prerequisite[s]?:?\s*(.*)\<close>, where the dot
  is any character but the line feed, and \<open>[A-Z]{2,4}\s?\d{2,4}[A-Z]?\<close>.
\<close>

definition PREREQUISITE_RE :: "atom list" where
  "PREREQUISITE_RE =
     map lit ''prerequisite''
     @ [Atom (literal CHR ''s'') 0 (Some 1),
        Atom (literal CHR '':'') 0 (Some 1),
        Atom is_space 0 None,
        Atom (\<lambda>c. c \<noteq> CHR 0x0A) 0 None]"

definition COURSE_CODE :: "atom list" where
  "COURSE_CODE =
     [Atom is_letter 2 (Some 4), Atom is_space 0 (Some 1), Atom is_digit 2 (Some 4),
      Atom is_letter 0 (Some 1)]"

definition is_prereq_heading :: "node \<Rightarrow> bool" where
  "is_prereq_heading tag =
     (named [''h2'', ''h3'', ''h4'', ''strong''] tag \<and> sublist ''prerequisite'' (lower (get_text tag)))"

text \<open>The value of \<open>prereq_text\<close> after the search for a heading.\<close>

definition heading_statement :: "node \<Rightarrow> string option" where
  "heading_statement soup =
     (case find_in is_prereq_heading (contents soup) of
        None \<Rightarrow> None
      | Some (prereq_heading, siblings) \<Rightarrow>
          (case find_next_sibling [''p'', ''ul'', ''div''] siblings of
             None \<Rightarrow> None
           | Some next_element \<Rightarrow> Some (get_text_stripped next_element)))"

text \<open>What the fallback assigns: \<open>prereq_match.group(1).split('.')[0].strip()\<close>.\<close>

definition body_statement :: "node \<Rightarrow> string option" where
  "body_statement soup =
     (let body_text = get_text soup
      in case search PREREQUISITE_RE body_text of
           None \<Rightarrow> None
         | Some prereq_match \<Rightarrow>
             Some (strip (takeWhile (\<lambda>c. c \<noteq> CHR ''.'') (group_last body_text prereq_match))))"

definition prereq_text :: "node \<Rightarrow> string option" where
  "prereq_text soup =
     (let from_heading = heading_statement soup
      in if \<not> truthy from_heading
         then (case body_statement soup of None \<Rightarrow> from_heading | Some text \<Rightarrow> Some text)
         else from_heading)"

definition last_segment :: "string \<Rightarrow> string" where
  "last_segment url = rev (takeWhile (\<lambda>c. c \<noteq> CHR ''/'') (rev url))"

definition course_title :: "node \<Rightarrow> string \<Rightarrow> string" where
  "course_title soup url =
     (case (case find_in (named [''h1'', ''h2'', ''h3'']) (contents soup) of
              Some r \<Rightarrow> Some r
            | None \<Rightarrow> find_in (named [''title'']) (contents soup)) of
        Some (course_title_tag, siblings) \<Rightarrow> strip (get_text course_title_tag)
      | None \<Rightarrow>
          strip (replace_char CHR ''_'' CHR '' '' (replace_char CHR ''-'' CHR '' '' (last_segment url))))"

text \<open>The value of \<open>prereqs\<close>, from the value of \<open>prereq_text\<close>.\<close>

definition structured :: "string option \<Rightarrow> string" where
  "structured text =
     (if truthy text
      then (let course_codes = findall COURSE_CODE (the text)
            in if course_codes \<noteq> [] then join '', '' course_codes else the text)
      else ''Not specified'')"

definition scrape_prerequisites ::
  "world \<Rightarrow> string list \<Rightarrow> string \<Rightarrow> pydict option \<times> string list" where
  "scrape_prerequisites w fetched url =
     (case get_html w fetched url of
        (html, fetched') \<Rightarrow>
          (if \<not> truthy html then (None, fetched')
           else let soup = BeautifulSoup w (the html)
                in (Some [(''title'', course_title soup url),
                          (''prerequisites'', structured (prereq_text soup)),
                          (''source'', url)], fetched')))"

subsection \<open>main\<close>

text \<open>
  The variables of \<open>main\<close>, with the list of the URLs requested so far, the exception
  that ended the run if one did, and the content of the output file if it was written.
  \<open>STARTING_URLS\<close> is the argument \<open>seeds\<close>.
\<close>

record state =
  all_prereqs :: "pydict list"
  queue :: "string list"
  visited_urls :: "string set"
  course_urls_to_scrape :: "string list"
  fetched :: "string list"
  raised :: "error option"
  output_file :: "pydict list option"

definition STARTING_URLS :: "string list" where
  "STARTING_URLS =
     [''https://ocw.mit.edu/courses/find-by-topic/#cat=engineering&subcat=computer-science'',
      ''https://ocw.mit.edu/courses/find-by-topic/#cat=science&subcat=mathematics'',
      ''https://onlinecourses.swayam2.ac.in/course_category_list'',
      ''https://www.bmsce.ac.in/department/computer-science-and-engineering/course-curriculum'']"

definition initial :: "string list \<Rightarrow> state" where
  "initial seeds =
     \<lparr>all_prereqs = [], queue = seeds, visited_urls = set seeds, course_urls_to_scrape = [],
      fetched = [], raised = None, output_file = None\<rparr>"

text \<open>The body of \<open>for link in found_links\<close>.\<close>

definition visit_link :: "string \<Rightarrow> state \<Rightarrow> string \<Rightarrow> state" where
  "visit_link current_url st link =
     (if link \<notin> visited_urls st
      then let st1 = st\<lparr>visited_urls := insert link (visited_urls st)\<rparr>;
               st2 = (if netloc link = netloc current_url
                      then st1\<lparr>queue := queue st1 @ [link]\<rparr> else st1)
           in if re_search COURSE_CODE_IN_URL link
              then st2\<lparr>course_urls_to_scrape := set_add link (course_urls_to_scrape st2)\<rparr>
              else st2
      else st)"

text \<open>The body of \<open>while queue\<close>.\<close>

definition crawl_step :: "world \<Rightarrow> state \<Rightarrow> state" where
  "crawl_step w st =
     (case queue st of
        [] \<Rightarrow> st
      | current_url # rest \<Rightarrow>
          (case get_html w (fetched st) current_url of
             (html, fetched') \<Rightarrow>
               (let st1 = st\<lparr>queue := rest, fetched := fetched'\<rparr>
                in if truthy html
                   then foldl (visit_link current_url) st1
                          (find_course_links w (the html) current_url)
                   else st1)))"

text \<open>
  The loop \<open>while queue\<close> need not end: \<open>crawl w fuel st\<close> is the state when the queue
  is empty, if that happens within \<open>fuel\<close> rounds.
\<close>

fun crawl :: "world \<Rightarrow> nat \<Rightarrow> state \<Rightarrow> state option" where
  "crawl w 0 st = (if queue st = [] then Some st else None)"
| "crawl w (Suc fuel) st = (if queue st = [] then Some st else crawl w fuel (crawl_step w st))"

text \<open>
  The condition \<open>data and data.get("title") and data["prerequisites"] != "Not specified"\<close>,
  and the line printed for a record that is kept, which reads \<open>data['title']\<close> and
  \<open>data['prereqs']\<close>.
\<close>

definition keep :: "pydict option \<Rightarrow> error + bool" where
  "keep data =
     (case data of
        None \<Rightarrow> Inr False
      | Some d \<Rightarrow>
          if d = [] then Inr False
          else if \<not> truthy (map_of d ''title'') then Inr False
          else (case dict_index d ''prerequisites'' of
                  Inl e \<Rightarrow> Inl e
                | Inr prereqs \<Rightarrow> Inr (prereqs \<noteq> ''Not specified'')))"

definition found_line :: "pydict \<Rightarrow> error + string" where
  "found_line data =
     (case dict_index data ''title'' of
        Inl e \<Rightarrow> Inl e
      | Inr title \<Rightarrow>
          (case dict_index data ''prereqs'' of
             Inl e \<Rightarrow> Inl e
           | Inr prereqs \<Rightarrow>
               Inr (''  - Found: '' @ [CHR 0x27] @ title @ [CHR 0x27]
                      @ '' with prerequisites: '' @ prereqs)))"

text \<open>The loop \<open>for url in course_urls_to_scrape\<close>; an exception ends it.\<close>

fun scrape_loop :: "world \<Rightarrow> string list \<Rightarrow> state \<Rightarrow> state" where
  "scrape_loop w [] st = st"
| "scrape_loop w (url # urls) st =
     (case scrape_prerequisites w (fetched st) url of
        (data, fetched') \<Rightarrow>
          (let st1 = st\<lparr>fetched := fetched'\<rparr>
           in case keep data of
                Inl e \<Rightarrow> st1\<lparr>raised := Some e\<rparr>
              | Inr False \<Rightarrow> scrape_loop w urls st1
              | Inr True \<Rightarrow>
                  (let st2 = st1\<lparr>all_prereqs := all_prereqs st1 @ [the data]\<rparr>
                   in case found_line (the data) of
                        Inl e \<Rightarrow> st2\<lparr>raised := Some e\<rparr>
                      | Inr line \<Rightarrow> scrape_loop w urls st2)))"

text \<open>\<open>json.dump(all_prereqs, f)\<close>, reached only when nothing was raised before.\<close>

definition write_output :: "state \<Rightarrow> state" where
  "write_output st = (if raised st = None then st\<lparr>output_file := Some (all_prereqs st)\<rparr> else st)"

definition traversal :: "world \<Rightarrow> string list \<Rightarrow> nat \<Rightarrow> state option" where
  "traversal w seeds fuel = crawl w fuel (initial seeds)"

definition main :: "world \<Rightarrow> string list \<Rightarrow> nat \<Rightarrow> state option" where
  "main w seeds fuel =
     (case traversal w seeds fuel of
        None \<Rightarrow> None
      | Some st \<Rightarrow> Some (write_output (scrape_loop w (course_urls_to_scrape st) st)))"

text \<open>The URLs requested by the second loop of a run.\<close>

definition scrape_requests :: "world \<Rightarrow> string list \<Rightarrow> nat \<Rightarrow> string list" where
  "scrape_requests w seeds fuel =
     (case (traversal w seeds fuel, main w seeds fuel) of
        (Some st, Some st') \<Rightarrow> drop (length (fetched st)) (fetched st')
      | _ \<Rightarrow> [])"

section \<open>chatbot.py: the lookup\<close>

text \<open>
  The data set is what \<open>json.load\<close> returns, objects with string values over the whole
  of Unicode. In this section a string is the list of its code points, and \<open>ascii\<close>
  gives the code points of a literal of the program. \<open>str.lower\<close> maps a string of code
  points below 256 character by character, \<open>A\<close>..\<open>Z\<close> and the capitals 192..222 (not
  215) moving up by 32; on every other string it is the lowering of the Unicode database,
  the parameter \<open>unicode_lower\<close>, which is not a map over the characters (a capital
  sigma is lowered according to its position, a dotted capital I becomes two code points).
\<close>

type_synonym str = "nat list"


definition ascii :: "string \<Rightarrow> str" where
  "ascii s = map of_char s"
















section \<open>Example pages\<close>

text \<open>
  A small web: a start page that links to itself, to a course page that names its
  prerequisites under a heading, to an address that does not answer and to another site
  that answers 404.
\<close>

definition page_seed :: node where
  "page_seed = Tag ''[document]'' []
     [Tag ''a'' [(''href'', ''https://a.edu/courses/2024/'')] [NavigableString ''Home''],
      Tag ''a'' [(''href'', ''https://a.edu/courses/algo-101'')] [NavigableString ''Algorithms''],
      Tag ''a'' [(''href'', ''http://a.edu/courses/'')] [NavigableString ''All courses''],
      Tag ''a'' [(''href'', ''https://b.org/courses/cs-202'')] [NavigableString ''Elsewhere'']]"

definition page_algo :: node where
  "page_algo = Tag ''[document]'' []
     [Tag ''h1'' [] [NavigableString ''Intro to Algorithms''],
      Tag ''h2'' [] [NavigableString ''Prerequisites''],
      Tag ''p'' [] [NavigableString ''CS 101, MATH 201'']]"

definition web :: world where
  "web =
     \<lparr>requests_get =
        (\<lambda>n url. if url = ''https://a.edu/courses/2024/'' then Response 200 ''seed''
                  else if url = ''https://a.edu/courses/algo-101'' then Response 200 ''algo''
                  else if url = ''https://b.org/courses/cs-202'' then Response 404 ''gone''
                  else ConnectionError),
      BeautifulSoup =
        (\<lambda>html. if html = ''seed'' then page_seed
                 else if html = ''algo'' then page_algo
                 else Tag ''[document]'' [] []),
      urljoin = (\<lambda>base href. href)\<rparr>"

text \<open>A server that answers 300 (Multiple Choices) with a body.\<close>

definition web_300 :: world where
  "web_300 =
     \<lparr>requests_get = (\<lambda>n url. Response 300 ''choices''),
      BeautifulSoup = (\<lambda>html. Tag ''[document]'' [] []),
      urljoin = (\<lambda>base href. href)\<rparr>"

text \<open>A page with three links that carry a fragment or a mail address.\<close>

definition page_links :: node where
  "page_links = Tag ''[document]'' []
     [Tag ''a'' [(''href'', ''https://a.edu/courses/cs-101#syllabus'')] [],
      Tag ''a'' [(''href'', ''https://a.edu/courses/#top'')] [],
      Tag ''a'' [(''href'', ''mailto:courses/@a.edu'')] []]"

definition web_links :: world where
  "web_links =
     \<lparr>requests_get = (\<lambda>n url. Response 200 ''links''),
      BeautifulSoup = (\<lambda>html. page_links),
      urljoin = (\<lambda>base href. href)\<rparr>"

text \<open>
  A page whose prerequisite heading is followed by an empty paragraph, the statement
  standing further down.
\<close>

definition page_empty_paragraph :: node where
  "page_empty_paragraph = Tag ''[document]'' []
     [Tag ''h2'' [] [NavigableString ''Prerequisites''],
      Tag ''p'' [] [],
      Tag ''span'' [] [NavigableString ''CS 101 is required. See the catalogue.'']]"

text \<open>The results of a run that the statements below speak of.\<close>

definition fetch_log :: "world \<Rightarrow> string list \<Rightarrow> nat \<Rightarrow> string list option" where
  "fetch_log w seeds fuel = map_option fetched (main w seeds fuel)"

text \<open>The specification's domain of a URL: its scheme and its host.\<close>

definition scheme_and_host :: "string \<Rightarrow> string \<times> string" where
  "scheme_and_host url = (scheme url, netloc url)"

text \<open>A request that \<open>get_html\<close> turns into \<open>None\<close>.\<close>

definition fails :: "world \<Rightarrow> nat \<Rightarrow> string \<Rightarrow> bool" where
  "fails w n url =
     (case requests_get w n url of
        Response status text \<Rightarrow> raise_for_status status
      | ConnectionError \<Rightarrow> True
      | Timeout \<Rightarrow> True)"

text \<open>A record that may be written: it has a title, and prerequisites other than the sentinel.\<close>

definition emittable :: "pydict \<Rightarrow> bool" where
  "emittable d =
     (map_of d ''title'' \<noteq> None \<and> map_of d ''title'' \<noteq> Some [] 
      \<and> map_of d ''prerequisites'' \<noteq> Some ''Not specified'')"

section \<open>Predicates on links and states\<close>

text \<open>
  A link that \<open>find_course_links\<close> returns; a state in which no URL was requested
  twice and none is both requested and waiting; a state in which the seeds are visited and
  no candidate is a seed; a state in which all that was requested or waits has the network
  location of a seed.
\<close>

definition retained :: "string \<Rightarrow> bool" where
  "retained u = (has_keyword u \<and> (re_search COURSE_CODE_IN_URL u \<or> \<not> has_excluded_marker u))"

definition once :: "state \<Rightarrow> bool" where
  "once st = (distinct (fetched st @ queue st) \<and> set (fetched st @ queue st) \<subseteq> visited_urls st)"

definition fresh :: "string list \<Rightarrow> state \<Rightarrow> bool" where
  "fresh seeds st =
     (set seeds \<subseteq> visited_urls st \<and> set (course_urls_to_scrape st) \<inter> set seeds = {}
      \<and> distinct (course_urls_to_scrape st))"

definition contained :: "string list \<Rightarrow> state \<Rightarrow> bool" where
  "contained seeds st = (\<forall>u \<in> set (queue st) \<union> set (fetched st). netloc u \<in> netloc ` set seeds)"


text \<open>
  The specification's words for what the patterns look for in a URL: a course-code-like
  substring is two digits in a row; the markers are \<open>#\<close>, \<open>javascript\<close> and
  \<open>mailto\<close>, in any case.
\<close>

definition two_digits :: "string \<Rightarrow> bool" where
  "two_digits u = (\<exists>pre a b post. u = pre @ [a, b] @ post \<and> is_digit a \<and> is_digit b)"

definition contains_marker :: "string \<Rightarrow> bool" where
  "contains_marker u =
     (CHR ''#'' \<in> set u \<or> sublist ''javascript'' (lower u) \<or> sublist ''mailto'' (lower u))"

text \<open>
  The specification's words for the link keywords: one of seven path segments, in any
  case, or two digits in a row followed, after at most one letter, by a hyphen.
\<close>

definition PATH_KEYWORDS :: "string list" where
  "PATH_KEYWORDS =
     [''courses/'', ''subjects/'', ''syllabus/'', ''curriculum/'', ''program/'', ''academic/'',
      ''course-detail/'']"

definition code_dash :: "string \<Rightarrow> bool" where
  "code_dash u =
     (\<exists>pre a b x post. u = pre @ [a, b] @ x @ ''-'' @ post \<and> is_digit a \<and> is_digit b
        \<and> list_all is_letter x \<and> length x \<le> 1)"

definition keyword_in :: "string \<Rightarrow> bool" where
  "keyword_in u = ((\<exists>k \<in> set PATH_KEYWORDS. sublist k (lower u)) \<or> code_dash u)"

section \<open>Facts about strings\<close>

lemma of_char_lower_char:
  "(of_char (lower_char c) :: nat) = (if is_upper c then of_char c + 32 else of_char c)"
  by (auto simp: lower_char_def is_upper_def Let_def)

lemma char_eq_iff_code: "a = b \<longleftrightarrow> (of_char a :: nat) = of_char b"
  by simp

section \<open>The matcher and the language of a pattern\<close>

lemma first_some_Some: "first_some f xs = Some y \<Longrightarrow> \<exists>x \<in> set xs. f x = Some y"
  by (induction xs) (auto split: option.splits)

lemma first_some_None: "first_some f xs = None \<longleftrightarrow> (\<forall>x \<in> set xs. f x = None)"
  by (induction xs) (auto split: option.splits)

lemma list_all_take_iff:
  "k \<le> length s \<Longrightarrow> list_all P (take k s) \<longleftrightarrow> k \<le> length (takeWhile P s)"
proof (induction s arbitrary: k)
  case Nil
  then show ?case by simp
next
  case (Cons c s)
  then show ?case by (cases k) auto
qed

lemma repetitions_iff:
  "k \<in> set (repetitions a s) \<longleftrightarrow> k \<le> length s \<and> allowed a (take k s)"
proof (cases a)
  case (Atom P lo hi)
  have le: "length (takeWhile P s) \<le> length s"
    by (rule length_takeWhile_le)
  show ?thesis
  proof (cases "k \<le> length s")
    case True
    then show ?thesis
      using Atom list_all_take_iff[OF True, of P]
      by (auto simp: repetitions_def Let_def split: option.splits)
  next
    case False
    then show ?thesis
      using Atom le by (auto simp: repetitions_def Let_def split: option.splits)
  qed
qed

lemma match_here_sound:
  "match_here p s = Some ns \<Longrightarrow>
     length ns = length p \<and> sum_list ns \<le> length s \<and> lang p (take (sum_list ns) s)"
proof (induction p arbitrary: s ns)
  case Nil
  then show ?case by simp
next
  case (Cons a rest)
  from Cons.prems obtain k where k: "k \<in> set (repetitions a s)"
    and m: "map_option ((#) k) (match_here rest (drop k s)) = Some ns"
    using first_some_Some by fastforce
  then obtain ms where ms: "match_here rest (drop k s) = Some ms" "ns = k # ms"
    by auto
  from Cons.IH[OF ms(1)] have ih: "length ms = length rest" "sum_list ms \<le> length s - k"
      "lang rest (take (sum_list ms) (drop k s))"
    by simp_all
  from k have ka: "k \<le> length s" "allowed a (take k s)"
    by (simp_all add: repetitions_iff)
  have "take (k + sum_list ms) s = take k s @ take (sum_list ms) (drop k s)"
    by (simp add: take_add)
  then have "lang (a # rest) (take (sum_list ns) s)"
    using ka ih ms(2) by auto
  then show ?case
    using ka ih ms(2) by simp
qed

lemma match_here_complete:
  "lang p t \<Longrightarrow> prefix t s \<Longrightarrow> match_here p s \<noteq> None"
proof (induction p arbitrary: t s)
  case Nil
  then show ?case by simp
next
  case (Cons a rest)
  from Cons.prems(1) obtain b u where bu: "t = b @ u" "allowed a b" "lang rest u"
    by auto
  from Cons.prems(2) bu(1) obtain v where s: "s = b @ u @ v"
    by (auto simp: prefix_def)
  have "length b \<in> set (repetitions a s)"
    using bu(2) s by (simp add: repetitions_iff)
  moreover have "match_here rest (drop (length b) s) \<noteq> None"
    using Cons.IH[OF bu(3), of "u @ v"] s by simp
  ultimately show ?case
    by (auto simp: first_some_None)
qed

lemma match_here_iff: "match_here p s \<noteq> None \<longleftrightarrow> (\<exists>t. prefix t s \<and> lang p t)"
proof
  assume "match_here p s \<noteq> None"
  then obtain ns where "match_here p s = Some ns" by auto
  from match_here_sound[OF this] show "\<exists>t. prefix t s \<and> lang p t"
    using take_is_prefix by blast
next
  assume "\<exists>t. prefix t s \<and> lang p t"
  then show "match_here p s \<noteq> None"
    using match_here_complete by blast
qed

lemma search_sound:
  "search p s = Some (i, ns) \<Longrightarrow>
     match_here p (drop i s) = Some ns \<and> i \<le> length s
     \<and> (\<forall>j < i. match_here p (drop j s) = None)"
proof (induction s arbitrary: i ns)
  case Nil
  then show ?case by auto
next
  case (Cons c s)
  show ?case
  proof (cases "match_here p (c # s)")
    case (Some ms)
    then show ?thesis using Cons.prems by auto
  next
    case None
    then obtain i' where i': "search p s = Some (i', ns)" "i = Suc i'"
      using Cons.prems by auto
    from Cons.IH[OF i'(1)] have ih: "match_here p (drop i' s) = Some ns" "i' \<le> length s"
      "\<forall>j < i'. match_here p (drop j s) = None"
      by simp_all
    have "match_here p (drop j (c # s)) = None" if "j < i" for j
      using that None ih(3) i'(2) by (cases j) auto
    then show ?thesis
      using ih i'(2) by simp
  qed
qed

lemma search_None: "search p s = None \<longleftrightarrow> (\<forall>j \<le> length s. match_here p (drop j s) = None)"
proof (induction s)
  case Nil
  then show ?case by auto
next
  case (Cons c s)
  have "(\<forall>j \<le> length (c # s). match_here p (drop j (c # s)) = None)
        \<longleftrightarrow> match_here p (c # s) = None \<and> (\<forall>j \<le> length s. match_here p (drop j s) = None)"
  proof
    assume a: "\<forall>j \<le> length (c # s). match_here p (drop j (c # s)) = None"
    have "match_here p (drop j s) = None" if "j \<le> length s" for j
      using a[rule_format, of "Suc j"] that by simp
    moreover have "match_here p (c # s) = None"
      using a[rule_format, of 0] by simp
    ultimately show "match_here p (c # s) = None \<and> (\<forall>j \<le> length s. match_here p (drop j s) = None)"
      by blast
  next
    assume a: "match_here p (c # s) = None \<and> (\<forall>j \<le> length s. match_here p (drop j s) = None)"
    show "\<forall>j \<le> length (c # s). match_here p (drop j (c # s)) = None"
    proof (intro allI impI)
      fix j assume "j \<le> length (c # s)"
      then show "match_here p (drop j (c # s)) = None"
        using a by (cases j) auto
    qed
  qed
  then show ?case
    using Cons by (auto split: option.splits)
qed

lemma sublist_iff_drop_prefix: "sublist t s \<longleftrightarrow> (\<exists>j \<le> length s. prefix t (drop j s))"
proof
  assume "sublist t s"
  then obtain ps ss where "s = ps @ t @ ss" by (auto simp: sublist_def)
  then have "length ps \<le> length s \<and> prefix t (drop (length ps) s)" by simp
  then show "\<exists>j \<le> length s. prefix t (drop j s)" by blast
next
  assume "\<exists>j \<le> length s. prefix t (drop j s)"
  then obtain j v where "drop j s = t @ v" by (auto simp: prefix_def)
  then have "s = take j s @ t @ v"
    by (metis append_take_drop_id)
  then show "sublist t s" by (auto simp: sublist_def)
qed

lemma re_search_iff: "re_search p s \<longleftrightarrow> has_match p s"
proof -
  have "re_search p s \<longleftrightarrow> (\<exists>j \<le> length s. match_here p (drop j s) \<noteq> None)"
    by (auto simp: re_search_def search_None)
  also have "\<dots> \<longleftrightarrow> (\<exists>j \<le> length s. \<exists>t. prefix t (drop j s) \<and> lang p t)"
    unfolding match_here_iff ..
  also have "\<dots> \<longleftrightarrow> has_match p s"
    unfolding has_match_def sublist_iff_drop_prefix by blast
  finally show ?thesis .
qed

subsection \<open>Literal patterns\<close>

lemma allowed_lit: "allowed (lit c) b \<longleftrightarrow> (\<exists>x. b = [x] \<and> lower_char x = lower_char c)"
proof -
  have "length b = 1 \<longleftrightarrow> (\<exists>x. b = [x])"
    by (cases b) auto
  then show ?thesis
    by (auto simp: lit_def literal_def)
qed

lemma lang_lits: "lang (map lit w) t \<longleftrightarrow> lower t = lower w"
proof (induction w arbitrary: t)
  case Nil
  then show ?case by (simp add: lower_def)
next
  case (Cons c w)
  show ?case
  proof (cases t)
    case Nil
    then show ?thesis by (simp add: allowed_lit lower_def)
  next
    case (Cons x t')
    have "lang (map lit (c # w)) (x # t') \<longleftrightarrow> lower_char x = lower_char c \<and> lang (map lit w) t'"
    proof
      assume "lang (map lit (c # w)) (x # t')"
      then obtain b u where bu: "x # t' = b @ u" "allowed (lit c) b" "lang (map lit w) u"
        by auto
      from bu(2) obtain y where y: "b = [y]" "lower_char y = lower_char c"
        by (auto simp: allowed_lit)
      with bu(1) have "y = x" "u = t'" by simp_all
      with y bu(3) show "lower_char x = lower_char c \<and> lang (map lit w) t'" by simp
    next
      assume a: "lower_char x = lower_char c \<and> lang (map lit w) t'"
      have "x # t' = [x] @ t' \<and> allowed (lit c) [x] \<and> lang (map lit w) t'"
        using a by (simp add: allowed_lit)
      then show "lang (map lit (c # w)) (x # t')"
        unfolding list.map lang.simps by blast
    qed
    then show ?thesis
      using Cons Cons.IH[of t'] by (simp add: lower_def)
  qed
qed

lemma sublist_map_iff:
  "sublist v (map f s) \<longleftrightarrow> (\<exists>t. sublist t s \<and> map f t = v)"
proof
  assume "sublist v (map f s)"
  then obtain ps ss where "map f s = ps @ (v @ ss)" by (auto simp: sublist_def)
  then obtain p r where pr: "s = p @ r" "ps = map f p" "v @ ss = map f r"
    unfolding map_eq_append_conv by blast
  from pr(3) obtain t q where "r = t @ q" "map f t = v"
    unfolding append_eq_map_conv by blast
  then have "sublist t s \<and> map f t = v"
    using pr(1) by (auto simp: sublist_def)
  then show "\<exists>t. sublist t s \<and> map f t = v" by blast
next
  assume "\<exists>t. sublist t s \<and> map f t = v"
  then obtain t ps ss where "s = ps @ t @ ss" "map f t = v" by (auto simp: sublist_def)
  then have "map f s = map f ps @ v @ map f ss" by simp
  then show "sublist v (map f s)" unfolding sublist_def by blast
qed

lemma re_search_lits: "re_search (map lit w) s \<longleftrightarrow> sublist (lower w) (lower s)"
  unfolding re_search_iff has_match_def lang_lits
  unfolding lower_def[of s] sublist_map_iff
  by (auto simp: lower_def)

lemma lower_char_hash: "lower_char x = CHR ''#'' \<longleftrightarrow> x = CHR ''#''"
proof -
  have "lower_char x = CHR ''#'' \<longleftrightarrow> (of_char (lower_char x) :: nat) = 35"
    by (subst char_eq_iff_code) simp
  also have "\<dots> \<longleftrightarrow> (of_char x :: nat) = 35"
    by (auto simp: of_char_lower_char is_upper_def Let_def)
  also have "\<dots> \<longleftrightarrow> x = CHR ''#''"
    by (subst char_eq_iff_code) simp
  finally show ?thesis .
qed

lemma sublist_singleton: "sublist [c] s \<longleftrightarrow> c \<in> set s"
  by (auto simp: sublist_def in_set_conv_decomp)

lemma re_search_hash: "re_search (map lit ''#'') s \<longleftrightarrow> CHR ''#'' \<in> set s"
proof -
  have "lower ''#'' = ''#''"
    by (simp add: lower_def lower_char_hash)
  moreover have "re_search (map lit ''#'') s \<longleftrightarrow> sublist (lower ''#'') (lower s)"
    by (rule re_search_lits)
  ultimately have "re_search (map lit ''#'') s \<longleftrightarrow> CHR ''#'' \<in> set (lower s)"
    by (simp only: sublist_singleton)
  also have "\<dots> \<longleftrightarrow> CHR ''#'' \<in> set s"
  proof
    assume "CHR ''#'' \<in> set (lower s)"
    then obtain x where "x \<in> set s" "lower_char x = CHR ''#''"
      by (auto simp: lower_def)
    then show "CHR ''#'' \<in> set s" by (simp add: lower_char_hash)
  next
    assume "CHR ''#'' \<in> set s"
    moreover have "lower_char CHR ''#'' = CHR ''#''" by (simp add: lower_char_hash)
    ultimately show "CHR ''#'' \<in> set (lower s)"
      unfolding lower_def set_map by (metis imageI)
  qed
  finally show ?thesis .
qed

lemma lower_javascript: "lower ''javascript'' = ''javascript''"
  by code_simp

lemma lower_mailto: "lower ''mailto'' = ''mailto''"
  by code_simp

lemma has_excluded_marker_iff: "has_excluded_marker u \<longleftrightarrow> contains_marker u"
proof -
  have "has_excluded_marker u \<longleftrightarrow>
          re_search (map lit ''#'') u \<or> re_search (map lit ''javascript'') u
          \<or> re_search (map lit ''mailto'') u"
    unfolding has_excluded_marker_def EXCLUDED_MARKERS_def list_ex_iff by simp
  moreover have "re_search (map lit ''#'') u \<longleftrightarrow> CHR ''#'' \<in> set u"
    by (rule re_search_hash)
  moreover have "re_search (map lit ''javascript'') u \<longleftrightarrow> sublist ''javascript'' (lower u)"
    using re_search_lits[of "''javascript''" u] unfolding lower_javascript .
  moreover have "re_search (map lit ''mailto'') u \<longleftrightarrow> sublist ''mailto'' (lower u)"
    using re_search_lits[of "''mailto''" u] unfolding lower_mailto .
  ultimately show ?thesis
    unfolding contains_marker_def by blast
qed

subsection \<open>Two digits in a row\<close>

lemma lang_code_in_url:
  "lang COURSE_CODE_IN_URL t \<longleftrightarrow>
     (\<exists>d x. t = d @ x \<and> list_all is_digit d \<and> 2 \<le> length d \<and> length d \<le> 4
            \<and> list_all is_letter x \<and> length x \<le> 1)"
  by (auto simp: COURSE_CODE_IN_URL_def)

lemma re_search_code_in_url: "re_search COURSE_CODE_IN_URL u \<longleftrightarrow> two_digits u"
proof
  assume "re_search COURSE_CODE_IN_URL u"
  then obtain t where t: "sublist t u" "lang COURSE_CODE_IN_URL t"
    by (auto simp: re_search_iff has_match_def)
  then obtain d x where d: "t = d @ x" "list_all is_digit d" "2 \<le> length d"
    by (auto simp: lang_code_in_url)
  then obtain a b d' where abd: "d = a # b # d'"
    by (cases d; cases "tl d") auto
  from t(1) obtain ps ss where "u = ps @ t @ ss" by (auto simp: sublist_def)
  then have "u = ps @ [a, b] @ (d' @ x @ ss)"
    using d(1) abd by simp
  moreover have "is_digit a" "is_digit b"
    using d(2) abd by simp_all
  ultimately show "two_digits u"
    unfolding two_digits_def by blast
next
  assume "two_digits u"
  then obtain pre a b post where u: "u = pre @ [a, b] @ post" "is_digit a" "is_digit b"
    by (auto simp: two_digits_def)
  have "lang COURSE_CODE_IN_URL [a, b]"
    unfolding lang_code_in_url
    by (rule exI[of _ "[a, b]"], rule exI[of _ "[]"]) (simp add: u)
  moreover have "sublist [a, b] u"
    unfolding sublist_def using u(1) by blast
  ultimately show "re_search COURSE_CODE_IN_URL u"
    by (auto simp: re_search_iff has_match_def)
qed

lemma retained_iff: "retained u \<longleftrightarrow> has_keyword u \<and> (two_digits u \<or> \<not> contains_marker u)"
  by (simp add: retained_def re_search_code_in_url has_excluded_marker_iff)

section \<open>Facts about the two loops\<close>

lemma set_set_add: "set (set_add x xs) = insert x (set xs)"
  by (auto simp: set_add_def)

lemma distinct_set_add: "distinct xs \<Longrightarrow> distinct (set_add x xs)"
  by (simp add: set_add_def)

lemma get_html_log: "snd (get_html w log url) = log @ [url]"
  by (simp add: get_html_def)

lemma scrape_prerequisites_log: "snd (scrape_prerequisites w log url) = log @ [url]"
  by (simp add: scrape_prerequisites_def get_html_def Let_def)

lemma set_add_course_link:
  "set (add_course_link links u) = (if retained u then insert u (set links) else set links)"
  by (auto simp: add_course_link_def retained_def set_set_add)

lemma distinct_add_course_link: "distinct links \<Longrightarrow> distinct (add_course_link links u)"
  by (simp add: add_course_link_def distinct_set_add)

lemma foldl_add_course_link:
  "set (foldl (\<lambda>links href. add_course_link links (f href)) acc hrefs)
     = set acc \<union> {u \<in> f ` set hrefs. retained u}"
  by (induction hrefs arbitrary: acc) (auto simp: set_add_course_link)

lemma distinct_foldl_add_course_link:
  "distinct acc \<Longrightarrow> distinct (foldl (\<lambda>links href. add_course_link links (f href)) acc hrefs)"
  by (induction hrefs arbitrary: acc) (auto simp: distinct_add_course_link)

lemma set_find_course_links:
  "set (find_course_links w html base_url)
     = {u \<in> urljoin w base_url ` set (find_all_a_href (contents (BeautifulSoup w html))). retained u}"
  by (simp add: find_course_links_def foldl_add_course_link)

lemma distinct_find_course_links: "distinct (find_course_links w html base_url)"
  by (simp add: find_course_links_def distinct_foldl_add_course_link)

subsection \<open>One link\<close>

lemma visit_link_queue:
  "queue (visit_link c st l)
     = queue st @ (if l \<notin> visited_urls st \<and> netloc l = netloc c then [l] else [])"
  by (simp add: visit_link_def Let_def)

lemma visit_link_visited: "visited_urls (visit_link c st l) = insert l (visited_urls st)"
  by (auto simp: visit_link_def Let_def)

lemma visit_link_candidates:
  "course_urls_to_scrape (visit_link c st l)
     = (if l \<notin> visited_urls st \<and> re_search COURSE_CODE_IN_URL l
        then set_add l (course_urls_to_scrape st) else course_urls_to_scrape st)"
  by (simp add: visit_link_def Let_def)

lemma visit_link_rest:
  "fetched (visit_link c st l) = fetched st"
  "all_prereqs (visit_link c st l) = all_prereqs st"
  "raised (visit_link c st l) = raised st"
  "output_file (visit_link c st l) = output_file st"
  by (simp_all add: visit_link_def Let_def)

lemma foldl_visit_link_rest:
  "fetched (foldl (visit_link c) st ls) = fetched st"
  "all_prereqs (foldl (visit_link c) st ls) = all_prereqs st"
  "raised (foldl (visit_link c) st ls) = raised st"
  "output_file (foldl (visit_link c) st ls) = output_file st"
  by (induction ls arbitrary: st) (simp_all add: visit_link_rest)

lemma foldl_visit_link_visited:
  "visited_urls (foldl (visit_link c) st ls) = visited_urls st \<union> set ls"
  by (induction ls arbitrary: st) (auto simp: visit_link_visited)

lemma foldl_visit_link_keeps:
  assumes "\<And>st l. P st \<Longrightarrow> P (visit_link c st l)" "P st"
  shows "P (foldl (visit_link c) st ls)"
  using assms(2) by (induction ls arbitrary: st) (auto intro: assms(1))

lemma crawl_step_unfold:
  "queue st = u # rest \<Longrightarrow>
   crawl_step w st =
     (let st1 = st\<lparr>queue := rest, fetched := fetched st @ [u]\<rparr>
      in if truthy (fst (get_html w (fetched st) u))
         then foldl (visit_link u) st1 (find_course_links w (the (fst (get_html w (fetched st) u))) u)
         else st1)"
  by (simp add: crawl_step_def get_html_def Let_def)

lemma crawl_step_keeps:
  assumes link: "\<And>c st l. P st \<Longrightarrow> P (visit_link c st l)"
    and pop: "\<And>st u rest. P st \<Longrightarrow> queue st = u # rest
                 \<Longrightarrow> P (st\<lparr>queue := rest, fetched := fetched st @ [u]\<rparr>)"
    and "P st"
  shows "P (crawl_step w st)"
proof (cases "queue st")
  case Nil
  then show ?thesis using assms(3) by (simp add: crawl_step_def)
next
  case (Cons u rest)
  have "P (st\<lparr>queue := rest, fetched := fetched st @ [u]\<rparr>)"
    using pop assms(3) Cons by blast
  then show ?thesis
    unfolding crawl_step_unfold[OF Cons] Let_def
    by (auto intro: foldl_visit_link_keeps link)
qed

lemma crawl_keeps:
  assumes "\<And>st. P st \<Longrightarrow> P (crawl_step w st)" "P st" "crawl w fuel st = Some st'"
  shows "P st' \<and> queue st' = []"
  using assms(2,3)
proof (induction fuel arbitrary: st)
  case 0
  then show ?case by (auto split: if_splits)
next
  case (Suc fuel)
  show ?case
  proof (cases "queue st = []")
    case True
    then show ?thesis using Suc.prems by simp
  next
    case False
    then have "crawl w fuel (crawl_step w st) = Some st'"
      using Suc.prems by simp
    moreover have "P (crawl_step w st)"
      using Suc.prems assms(1) by blast
    ultimately show ?thesis using Suc.IH by blast
  qed
qed

lemma crawl_iterate:
  "crawl w fuel st = Some st' \<Longrightarrow> \<exists>n \<le> fuel. st' = (crawl_step w ^^ n) st \<and> queue st' = []"
proof (induction fuel arbitrary: st)
  case 0
  then show ?case by (auto split: if_splits)
next
  case (Suc fuel)
  show ?case
  proof (cases "queue st = []")
    case True
    then show ?thesis using Suc.prems by auto
  next
    case False
    then have "crawl w fuel (crawl_step w st) = Some st'"
      using Suc.prems by simp
    then obtain n where "n \<le> fuel" "st' = (crawl_step w ^^ n) (crawl_step w st)" "queue st' = []"
      using Suc.IH by blast
    then have "Suc n \<le> Suc fuel \<and> st' = (crawl_step w ^^ Suc n) st \<and> queue st' = []"
      by (simp add: funpow_swap1)
    then show ?thesis by blast
  qed
qed

lemma iterate_keeps:
  assumes "\<And>st. P st \<Longrightarrow> P (crawl_step w st)" "P st"
  shows "P ((crawl_step w ^^ n) st)"
  by (induction n) (auto intro: assms)

subsection \<open>No URL is requested twice by the first loop\<close>

lemma once_visit_link: "once st \<Longrightarrow> once (visit_link c st l)"
  unfolding once_def visit_link_queue visit_link_visited visit_link_rest
  by auto

lemma once_crawl_step: "once st \<Longrightarrow> once (crawl_step w st)"
proof (rule crawl_step_keeps[where P = once])
  show "\<And>c st l. once st \<Longrightarrow> once (visit_link c st l)" by (rule once_visit_link)
  show "\<And>st u rest. once st \<Longrightarrow> queue st = u # rest
          \<Longrightarrow> once (st\<lparr>queue := rest, fetched := fetched st @ [u]\<rparr>)"
    by (auto simp: once_def)
qed

lemma once_initial: "distinct seeds \<Longrightarrow> once (initial seeds)"
  by (simp add: once_def initial_def)

subsection \<open>The candidates\<close>

lemma fresh_visit_link: "fresh seeds st \<Longrightarrow> fresh seeds (visit_link c st l)"
  unfolding fresh_def visit_link_visited visit_link_candidates
  by (auto simp: set_set_add distinct_set_add)

lemma fresh_crawl_step: "fresh seeds st \<Longrightarrow> fresh seeds (crawl_step w st)"
proof (rule crawl_step_keeps[where P = "fresh seeds"])
  show "\<And>c st l. fresh seeds st \<Longrightarrow> fresh seeds (visit_link c st l)" by (rule fresh_visit_link)
  show "\<And>st u rest. fresh seeds st \<Longrightarrow> queue st = u # rest
          \<Longrightarrow> fresh seeds (st\<lparr>queue := rest, fetched := fetched st @ [u]\<rparr>)"
    by (auto simp: fresh_def)
qed

lemma fresh_initial: "fresh seeds (initial seeds)"
  by (simp add: fresh_def initial_def)

subsection \<open>The second loop\<close>

lemma scrape_loop_frame:
  "queue (scrape_loop w urls st) = queue st"
  "visited_urls (scrape_loop w urls st) = visited_urls st"
  "course_urls_to_scrape (scrape_loop w urls st) = course_urls_to_scrape st"
  "output_file (scrape_loop w urls st) = output_file st"
  by (induction urls arbitrary: st)
     (auto simp: Let_def split: prod.splits sum.splits bool.splits)

lemma scrape_loop_fetched:
  "\<exists>k \<le> length urls. fetched (scrape_loop w urls st) = fetched st @ take k urls"
proof (induction urls arbitrary: st)
  case Nil
  then show ?case by simp
next
  case (Cons url urls)
  obtain data where d: "scrape_prerequisites w (fetched st) url = (data, fetched st @ [url])"
    using scrape_prerequisites_log[of w "fetched st" url] by (cases "scrape_prerequisites w (fetched st) url") simp
  let ?st1 = "st\<lparr>fetched := fetched st @ [url]\<rparr>"
  let ?st2 = "?st1\<lparr>all_prereqs := all_prereqs ?st1 @ [the data]\<rparr>"
  have stop: "\<exists>k \<le> length (url # urls). fetched st @ [url] = fetched st @ take k (url # urls)"
    by (rule exI[of _ 1]) simp
  have go: "\<exists>k \<le> length (url # urls). fetched (scrape_loop w urls s) = fetched st @ take k (url # urls)"
    if "fetched s = fetched st @ [url]" for s
  proof -
    from Cons[of s] obtain k where "k \<le> length urls" "fetched (scrape_loop w urls s) = fetched s @ take k urls"
      by blast
    then have "Suc k \<le> length (url # urls) \<and> fetched (scrape_loop w urls s) = fetched st @ take (Suc k) (url # urls)"
      using that by simp
    then show ?thesis by blast
  qed
  show ?case
    using d stop go[of ?st1] go[of ?st2]
    by (auto simp: Let_def split: sum.splits bool.splits)
qed

subsection \<open>A run over the small web\<close>

lemma web_run:
  "main web [''https://a.edu/courses/2024/''] 5 =
     Some \<lparr>all_prereqs = [[(''title'', ''Intro to Algorithms''),
                           (''prerequisites'', ''CS 101, MATH 201''),
                           (''source'', ''https://a.edu/courses/algo-101'')]],
           queue = [],
           visited_urls = {''https://a.edu/courses/2024/'', ''https://a.edu/courses/algo-101'',
                           ''http://a.edu/courses/'', ''https://b.org/courses/cs-202''},
           course_urls_to_scrape = [''https://a.edu/courses/algo-101'', ''https://b.org/courses/cs-202''],
           fetched = [''https://a.edu/courses/2024/'', ''https://a.edu/courses/algo-101'', ''http://a.edu/courses/'',
                      ''https://a.edu/courses/algo-101''],
           raised = Some (KeyError ''prereqs''),
           output_file = None\<rparr>"
  by code_simp

lemma web_traversal:
  "traversal web [''https://a.edu/courses/2024/''] 5 =
     Some \<lparr>all_prereqs = [],
           queue = [],
           visited_urls = {''https://a.edu/courses/2024/'', ''https://a.edu/courses/algo-101'',
                           ''http://a.edu/courses/'', ''https://b.org/courses/cs-202''},
           course_urls_to_scrape = [''https://a.edu/courses/algo-101'', ''https://b.org/courses/cs-202''],
           fetched = [''https://a.edu/courses/2024/'', ''https://a.edu/courses/algo-101'', ''http://a.edu/courses/''],
           raised = None,
           output_file = None\<rparr>"
  by code_simp

subsection \<open>Records that are kept\<close>

lemma keep_emittable: "keep data = Inr True \<Longrightarrow> emittable (the data)"
  by (cases data)
     (auto simp: keep_def emittable_def truthy_def dict_index_def
           split: if_splits option.splits sum.splits)

lemma scrape_loop_emittable:
  "\<forall>d \<in> set (all_prereqs st). emittable d
   \<Longrightarrow> \<forall>d \<in> set (all_prereqs (scrape_loop w urls st)). emittable d"
proof (induction urls arbitrary: st)
  case Nil
  then show ?case by simp
next
  case (Cons url urls)
  obtain data log where d: "scrape_prerequisites w (fetched st) url = (data, log)"
    by (cases "scrape_prerequisites w (fetched st) url")
  let ?st1 = "st\<lparr>fetched := log\<rparr>"
  let ?st2 = "?st1\<lparr>all_prereqs := all_prereqs ?st1 @ [the data]\<rparr>"
  have 1: "\<forall>d \<in> set (all_prereqs (scrape_loop w urls ?st1)). emittable d"
    using Cons.prems by (intro Cons.IH) simp
  have 2: "\<forall>d \<in> set (all_prereqs ?st2). emittable d" if "keep data = Inr True"
    using Cons.prems keep_emittable[OF that] by simp
  have 3: "\<forall>d \<in> set (all_prereqs (scrape_loop w urls ?st2)). emittable d" if "keep data = Inr True"
    using 2[OF that] by (intro Cons.IH)
  show ?case
    using d 1 2 3 Cons.prems
    by (auto simp: Let_def split: sum.splits bool.splits)
qed

lemma write_output_all_prereqs: "all_prereqs (write_output st) = all_prereqs st"
  by (simp add: write_output_def)

lemma write_output_file: "output_file (write_output st) = Some out \<Longrightarrow> output_file st = None
  \<Longrightarrow> out = all_prereqs st"
  by (auto simp: write_output_def split: if_splits)

lemma crawl_step_all_prereqs: "all_prereqs (crawl_step w st) = all_prereqs st"
  by (cases "queue st")
     (auto simp: crawl_step_def Let_def foldl_visit_link_rest split: prod.splits)

lemma crawl_step_output_file: "output_file (crawl_step w st) = output_file st"
  by (cases "queue st")
     (auto simp: crawl_step_def Let_def foldl_visit_link_rest split: prod.splits)

lemma crawl_step_raised: "raised (crawl_step w st) = raised st"
  by (cases "queue st")
     (auto simp: crawl_step_def Let_def foldl_visit_link_rest split: prod.splits)

lemma traversal_nothing_scraped:
  assumes "traversal w seeds fuel = Some st"
  shows "all_prereqs st = [] \<and> output_file st = None \<and> raised st = None"
proof -
  have "(all_prereqs st = [] \<and> output_file st = None \<and> raised st = None) \<and> queue st = []"
  proof (rule crawl_keeps[where P = "\<lambda>s. all_prereqs s = [] \<and> output_file s = None \<and> raised s = None"])
    show "crawl w fuel (initial seeds) = Some st"
      using assms by (simp add: traversal_def)
  qed (simp_all add: crawl_step_all_prereqs crawl_step_output_file crawl_step_raised initial_def)
  then show ?thesis by simp
qed

text \<open>
  C2. In every run the list \<open>all_prereqs\<close> holds only records with a non-empty title and
  with prerequisites other than \<open>Not specified\<close>, also when the run is ended by an
  exception; and so does the output file when it is written.
\<close>

theorem no_sentinel_is_persisted:
  assumes "main w seeds fuel = Some st"
  shows "(\<forall>d \<in> set (all_prereqs st).
            map_of d ''title'' \<noteq> None \<and> map_of d ''title'' \<noteq> Some []
            \<and> map_of d ''prerequisites'' \<noteq> Some ''Not specified'')
       \<and> (\<forall>out. output_file st = Some out \<longrightarrow>
            (\<forall>d \<in> set out.
               map_of d ''title'' \<noteq> None \<and> map_of d ''title'' \<noteq> Some []
               \<and> map_of d ''prerequisites'' \<noteq> Some ''Not specified''))"
proof -
  from assms obtain t where t: "traversal w seeds fuel = Some t"
    and st: "st = write_output (scrape_loop w (course_urls_to_scrape t) t)"
    by (auto simp: main_def split: option.splits)
  let ?s = "scrape_loop w (course_urls_to_scrape t) t"
  have e: "all_prereqs t = []" "output_file t = None"
    using traversal_nothing_scraped[OF t] by simp_all
  have good: "\<forall>d \<in> set (all_prereqs ?s). emittable d"
    by (rule scrape_loop_emittable) (simp add: e)
  have a: "all_prereqs st = all_prereqs ?s"
    by (simp add: st write_output_all_prereqs)
  have "output_file ?s = None"
    by (simp add: scrape_loop_frame e)
  then have b: "out = all_prereqs ?s" if "output_file st = Some out" for out
    using that write_output_file[of ?s out] by (simp add: st)
  show ?thesis
    using good a b by (auto simp: emittable_def)
qed

theorem no_sentinel_is_persisted_witness:
  "map_of [(''title'', ''Intro to Algorithms''), (''prerequisites'', ''CS 101, MATH 201''),
           (''source'', ''https://a.edu/courses/algo-101'')] ''title'' \<noteq> Some []
   \<and> map_of [(''title'', ''Intro to Algorithms''), (''prerequisites'', ''CS 101, MATH 201''),
           (''source'', ''https://a.edu/courses/algo-101'')] ''prerequisites'' \<noteq> Some ''Not specified''"
  using no_sentinel_is_persisted[OF web_run] by simp

subsection \<open>Requests\<close>

lemma main_fetched:
  assumes "traversal w seeds fuel = Some st"
  shows "\<exists>st' k. main w seeds fuel = Some st' \<and> k \<le> length (course_urls_to_scrape st)
           \<and> fetched st' = fetched st @ take k (course_urls_to_scrape st)
           \<and> scrape_requests w seeds fuel = take k (course_urls_to_scrape st)"
proof -
  let ?s = "scrape_loop w (course_urls_to_scrape st) st"
  obtain k where k: "k \<le> length (course_urls_to_scrape st)"
    "fetched ?s = fetched st @ take k (course_urls_to_scrape st)"
    using scrape_loop_fetched by blast
  have m: "main w seeds fuel = Some (write_output ?s)"
    using assms by (simp add: main_def)
  have f: "fetched (write_output ?s) = fetched ?s"
    by (simp add: write_output_def)
  have "scrape_requests w seeds fuel = take k (course_urls_to_scrape st)"
    using assms m f k by (simp add: scrape_requests_def)
  then show ?thesis using m f k by auto
qed

lemma scrape_requests_None: "traversal w seeds fuel = None \<Longrightarrow> scrape_requests w seeds fuel = []"
  by (simp add: scrape_requests_def)

text \<open>
  C3, as the program has it. When the seeds are pairwise different, the first loop
  requests no URL twice, at any round, and the second loop requests no URL twice; the
  requests of a whole run are those of the first loop followed by those of the second,
  which are candidates. A URL may be requested once by each loop.
\<close>

theorem each_loop_requests_a_url_at_most_once:
  assumes "distinct seeds"
  shows "(\<forall>n. distinct (fetched ((crawl_step w ^^ n) (initial seeds))))
       \<and> (\<forall>st. traversal w seeds fuel = Some st \<longrightarrow>
            distinct (fetched st)
            \<and> distinct (scrape_requests w seeds fuel)
            \<and> set (scrape_requests w seeds fuel) \<subseteq> set (course_urls_to_scrape st)
            \<and> fetch_log w seeds fuel = Some (fetched st @ scrape_requests w seeds fuel))"
proof -
  have rounds: "distinct (fetched ((crawl_step w ^^ n) (initial seeds)))" for n
  proof -
    have "once ((crawl_step w ^^ n) (initial seeds))"
      by (rule iterate_keeps[where P = once]) (auto intro: once_crawl_step once_initial assms)
    then show ?thesis by (simp add: once_def)
  qed
  have ends: "distinct (fetched st)
            \<and> distinct (scrape_requests w seeds fuel)
            \<and> set (scrape_requests w seeds fuel) \<subseteq> set (course_urls_to_scrape st)
            \<and> fetch_log w seeds fuel = Some (fetched st @ scrape_requests w seeds fuel)"
    if t: "traversal w seeds fuel = Some st" for st
  proof -
    have c: "crawl w fuel (initial seeds) = Some st"
      using t by (simp add: traversal_def)
    have "once st \<and> queue st = []"
      by (rule crawl_keeps[where P = once, OF _ _ c]) (auto intro: once_crawl_step once_initial assms)
    then have 1: "distinct (fetched st)" by (simp add: once_def)
    have "fresh seeds st \<and> queue st = []"
      by (rule crawl_keeps[where P = "fresh seeds", OF _ _ c]) (auto intro: fresh_crawl_step fresh_initial)
    then have d: "distinct (course_urls_to_scrape st)" by (simp add: fresh_def)
    from main_fetched[OF t] obtain st' k where
      m: "main w seeds fuel = Some st'" "fetched st' = fetched st @ take k (course_urls_to_scrape st)"
         "scrape_requests w seeds fuel = take k (course_urls_to_scrape st)"
      by blast
    have 2: "distinct (scrape_requests w seeds fuel)"
      using d m(3) by simp
    have 3: "set (scrape_requests w seeds fuel) \<subseteq> set (course_urls_to_scrape st)"
      using m(3) by (simp add: set_take_subset)
    have 4: "fetch_log w seeds fuel = Some (fetched st @ scrape_requests w seeds fuel)"
      using m by (simp add: fetch_log_def)
    from 1 2 3 4 show ?thesis by simp
  qed
  from rounds ends show ?thesis by blast
qed

theorem each_loop_requests_a_url_at_most_once_witness:
  "distinct [''https://a.edu/courses/2024/'', ''https://a.edu/courses/algo-101'', ''http://a.edu/courses/'']
   \<and> scrape_requests web [''https://a.edu/courses/2024/''] 5 = [''https://a.edu/courses/algo-101'']"
proof -
  have d: "distinct [''https://a.edu/courses/2024/'']" by simp
  have s: "scrape_requests web [''https://a.edu/courses/2024/''] 5 = [''https://a.edu/courses/algo-101'']"
    by (simp add: scrape_requests_def web_run web_traversal)
  from each_loop_requests_a_url_at_most_once[OF d, of web 5] web_traversal s
  show ?thesis by simp
qed

text \<open>
  C3 as stated fails: the run over the small web requests the course page twice, once
  when the first loop follows the link and once when the second loop scrapes it.
\<close>

theorem url_requested_by_both_loops:
  "fetch_log web [''https://a.edu/courses/2024/''] 5 =
     Some [''https://a.edu/courses/2024/'', ''https://a.edu/courses/algo-101'', ''http://a.edu/courses/'',
           ''https://a.edu/courses/algo-101'']"
  by (simp add: fetch_log_def web_run)

subsection \<open>Seeds\<close>

text \<open>
  C10. At every round of the first loop the seeds are marked visited and none of them
  is a candidate; a link that is already visited adds no candidate; and the second loop
  requests no seed.
\<close>

theorem seeds_are_never_candidates:
  "(\<forall>n. set seeds \<subseteq> visited_urls ((crawl_step w ^^ n) (initial seeds))
        \<and> set seeds \<inter> set (course_urls_to_scrape ((crawl_step w ^^ n) (initial seeds))) = {})
   \<and> (\<forall>c st l. l \<in> visited_urls st \<longrightarrow>
         course_urls_to_scrape (visit_link c st l) = course_urls_to_scrape st)
   \<and> set seeds \<inter> set (scrape_requests w seeds fuel) = {}"
proof -
  have rounds: "fresh seeds ((crawl_step w ^^ n) (initial seeds))" for n
    by (rule iterate_keeps[where P = "fresh seeds"]) (auto intro: fresh_crawl_step fresh_initial)
  have links: "course_urls_to_scrape (visit_link c st l) = course_urls_to_scrape st"
    if "l \<in> visited_urls st" for c st l
    using that by (simp add: visit_link_candidates)
  have scraped: "set seeds \<inter> set (scrape_requests w seeds fuel) = {}"
  proof (cases "traversal w seeds fuel")
    case None
    then show ?thesis by (simp add: scrape_requests_None)
  next
    case (Some st)
    then have c: "crawl w fuel (initial seeds) = Some st"
      by (simp add: traversal_def)
    have "fresh seeds st \<and> queue st = []"
      by (rule crawl_keeps[where P = "fresh seeds", OF _ _ c]) (auto intro: fresh_crawl_step fresh_initial)
    moreover from main_fetched[OF Some] obtain k where
      "scrape_requests w seeds fuel = take k (course_urls_to_scrape st)"
      by blast
    ultimately show ?thesis
      using set_take_subset[of k "course_urls_to_scrape st"] by (auto simp: fresh_def)
  qed
  from rounds links scraped show ?thesis
    unfolding fresh_def by blast
qed

theorem seeds_are_never_candidates_witness:
  "re_search COURSE_CODE_IN_URL ''https://a.edu/courses/2024/''
   \<and> ''https://a.edu/courses/2024/'' \<in> set (find_course_links web ''seed'' ''https://a.edu/courses/2024/'')
   \<and> ''https://a.edu/courses/2024/'' \<notin> set (course_urls_to_scrape ((crawl_step web ^^ 1) (initial [''https://a.edu/courses/2024/''])))
   \<and> ''https://a.edu/courses/2024/'' \<notin> set (scrape_requests web [''https://a.edu/courses/2024/''] 5)"
proof -
  have 1: "re_search COURSE_CODE_IN_URL ''https://a.edu/courses/2024/''"
    by code_simp
  have 2: "''https://a.edu/courses/2024/'' \<in> set (find_course_links web ''seed'' ''https://a.edu/courses/2024/'')"
    by code_simp
  note t = seeds_are_never_candidates[of "[''https://a.edu/courses/2024/'']" web 5]
  from t have "set [''https://a.edu/courses/2024/'']
        \<inter> set (course_urls_to_scrape ((crawl_step web ^^ 1) (initial [''https://a.edu/courses/2024/'']))) = {}"
    by blast
  then have 3: "''https://a.edu/courses/2024/''
        \<notin> set (course_urls_to_scrape ((crawl_step web ^^ 1) (initial [''https://a.edu/courses/2024/''])))"
    by simp
  from t have "set [''https://a.edu/courses/2024/'']
        \<inter> set (scrape_requests web [''https://a.edu/courses/2024/''] 5) = {}"
    by blast
  then have 4: "''https://a.edu/courses/2024/'' \<notin> set (scrape_requests web [''https://a.edu/courses/2024/''] 5)"
    by simp
  from 1 2 3 4 show ?thesis by blast
qed

subsection \<open>Links to another site\<close>

lemma foldl_visit_link_queue:
  "set (queue (foldl (visit_link c) st ls)) \<subseteq> set (queue st) \<union> {l \<in> set ls. netloc l = netloc c}"
proof (induction ls arbitrary: st)
  case Nil
  then show ?case by simp
next
  case (Cons l ls)
  have "set (queue (visit_link c st l)) \<subseteq> set (queue st) \<union> {x \<in> {l}. netloc x = netloc c}"
    by (auto simp: visit_link_queue)
  with Cons[of "visit_link c st l"] show ?case by auto
qed

lemma crawl_step_queue:
  assumes "queue st = u # rest" "l \<in> set (queue (crawl_step w st))"
  shows "l \<in> set rest \<or> netloc l = netloc u"
proof -
  let ?st1 = "st\<lparr>queue := rest, fetched := fetched st @ [u]\<rparr>"
  have "set (queue (crawl_step w st)) \<subseteq> set rest \<union> {l. netloc l = netloc u}"
    unfolding crawl_step_unfold[OF assms(1)] Let_def
    using foldl_visit_link_queue[of u ?st1] by auto
  with assms(2) show ?thesis by auto
qed

lemma contained_crawl_step:
  assumes "contained seeds st"
  shows "contained seeds (crawl_step w st)"
proof (cases "queue st")
  case Nil
  then show ?thesis using assms by (simp add: crawl_step_def)
next
  case (Cons u rest)
  have u: "netloc u \<in> netloc ` set seeds"
    using assms Cons by (simp add: contained_def)
  have f: "fetched (crawl_step w st) = fetched st @ [u]"
    unfolding crawl_step_unfold[OF Cons] Let_def by (simp add: foldl_visit_link_rest)
  have q: "netloc l \<in> netloc ` set seeds" if "l \<in> set (queue (crawl_step w st))" for l
    using crawl_step_queue[OF Cons that] u assms Cons by (auto simp: contained_def)
  show ?thesis
    unfolding contained_def f using q u assms by (auto simp: contained_def)
qed

lemma contained_initial: "contained seeds (initial seeds)"
  by (simp add: contained_def initial_def)


lemma foldl_visit_link_queue_exact:
  "distinct ls \<Longrightarrow>
   queue (foldl (visit_link c) st ls)
     = queue st @ filter (\<lambda>l. l \<notin> visited_urls st \<and> netloc l = netloc c) ls"
proof (induction ls arbitrary: st)
  case Nil
  then show ?case by simp
next
  case (Cons l ls)
  have "filter (\<lambda>x. x \<notin> visited_urls (visit_link c st l) \<and> netloc x = netloc c) ls
          = filter (\<lambda>x. x \<notin> visited_urls st \<and> netloc x = netloc c) ls"
    using Cons.prems by (intro filter_cong) (auto simp: visit_link_visited)
  then show ?case
    using Cons by (simp add: visit_link_queue)
qed

lemma foldl_visit_link_candidates:
  "distinct ls \<Longrightarrow>
   set (course_urls_to_scrape (foldl (visit_link c) st ls))
     = set (course_urls_to_scrape st) \<union> {l \<in> set ls. l \<notin> visited_urls st \<and> two_digits l}"
proof (induction ls arbitrary: st)
  case Nil
  then show ?case by simp
next
  case (Cons l ls)
  have "{x \<in> set ls. x \<notin> visited_urls (visit_link c st l) \<and> two_digits x}
          = {x \<in> set ls. x \<notin> visited_urls st \<and> two_digits x}"
    using Cons.prems by (auto simp: visit_link_visited)
  then show ?case
    using Cons by (auto simp: visit_link_candidates set_set_add re_search_code_in_url)
qed

lemma crawl_step_success:
  assumes "queue st = u # rest" "get_html w (fetched st) u = (Some html, log)" "html \<noteq> []"
  shows "crawl_step w st
           = foldl (visit_link u) (st\<lparr>queue := rest, fetched := fetched st @ [u]\<rparr>)
               (find_course_links w html u)"
  using assms crawl_step_unfold[OF assms(1), of w] by (simp add: Let_def truthy_def)

text \<open>
  C4, as the program has it. After a round that fetched the page \<open>u\<close>, the queue is
  the rest of the queue followed by the links of the page that were not visited before
  and have the network location of \<open>u\<close>, whatever their schemes; so a link to another
  network location is not put on the queue, and every URL the first loop requests has
  the network location of a seed. The candidates are the old ones and the links of the
  page that were not visited before and hold two digits in a row, whatever their
  network locations.
\<close>

theorem links_to_another_netloc_are_not_enqueued:
  assumes "queue st = u # rest" "get_html w (fetched st) u = (Some html, log)" "html \<noteq> []"
  shows "queue (crawl_step w st)
           = rest @ filter (\<lambda>l. l \<notin> visited_urls st \<and> netloc l = netloc u) (find_course_links w html u)
       \<and> set (course_urls_to_scrape (crawl_step w st))
           = set (course_urls_to_scrape st)
             \<union> {l \<in> set (find_course_links w html u). l \<notin> visited_urls st \<and> two_digits l}
       \<and> visited_urls (crawl_step w st) = visited_urls st \<union> set (find_course_links w html u)
       \<and> (\<forall>l \<in> set (find_course_links w html u).
            netloc l \<noteq> netloc u \<longrightarrow> (l \<in> set (queue (crawl_step w st)) \<longleftrightarrow> l \<in> set rest))
       \<and> (\<forall>l \<in> set (find_course_links w html u).
            l \<notin> visited_urls st \<and> two_digits l \<longrightarrow> l \<in> set (course_urls_to_scrape (crawl_step w st)))
       \<and> (\<forall>n. \<forall>x \<in> set (fetched ((crawl_step w ^^ n) (initial seeds))). netloc x \<in> netloc ` set seeds)"
proof -
  let ?st1 = "st\<lparr>queue := rest, fetched := fetched st @ [u]\<rparr>"
  let ?ls = "find_course_links w html u"
  note s = crawl_step_success[OF assms]
  note d = distinct_find_course_links[of w html u]
  have 1: "queue (crawl_step w st)
           = rest @ filter (\<lambda>l. l \<notin> visited_urls st \<and> netloc l = netloc u) ?ls"
    unfolding s using foldl_visit_link_queue_exact[OF d, of u ?st1] by simp
  have 2: "set (course_urls_to_scrape (crawl_step w st))
           = set (course_urls_to_scrape st) \<union> {l \<in> set ?ls. l \<notin> visited_urls st \<and> two_digits l}"
    unfolding s using foldl_visit_link_candidates[OF d, of u ?st1] by simp
  have 3: "visited_urls (crawl_step w st) = visited_urls st \<union> set ?ls"
    unfolding s by (simp add: foldl_visit_link_visited)
  have 4: "\<forall>l \<in> set ?ls. netloc l \<noteq> netloc u \<longrightarrow> (l \<in> set (queue (crawl_step w st)) \<longleftrightarrow> l \<in> set rest)"
    unfolding 1 by auto
  have 5: "\<forall>l \<in> set ?ls. l \<notin> visited_urls st \<and> two_digits l
             \<longrightarrow> l \<in> set (course_urls_to_scrape (crawl_step w st))"
    unfolding 2 by auto
  have 6: "\<forall>x \<in> set (fetched ((crawl_step w ^^ n) (initial seeds))). netloc x \<in> netloc ` set seeds" for n
  proof -
    have "contained seeds ((crawl_step w ^^ n) (initial seeds))"
      by (rule iterate_keeps[where P = "contained seeds"])
         (auto intro: contained_crawl_step contained_initial)
    then show ?thesis by (simp add: contained_def)
  qed
  from 1 2 3 4 5 6 show ?thesis by blast
qed

lemma web_seed_links:
  "find_course_links web ''seed'' ''https://a.edu/courses/2024/''
     = [''https://a.edu/courses/2024/'', ''https://a.edu/courses/algo-101'',
        ''http://a.edu/courses/'', ''https://b.org/courses/cs-202'']"
  by code_simp

theorem links_to_another_netloc_are_not_enqueued_witness:
  "netloc ''https://b.org/courses/cs-202'' = ''b.org''
   \<and> netloc ''https://a.edu/courses/2024/'' = ''a.edu''
   \<and> ''https://b.org/courses/cs-202''
        \<notin> set (queue (crawl_step web (initial [''https://a.edu/courses/2024/''])))
   \<and> ''https://b.org/courses/cs-202''
        \<in> set (course_urls_to_scrape (crawl_step web (initial [''https://a.edu/courses/2024/''])))"
proof -
  let ?st = "initial [''https://a.edu/courses/2024/'']"
  have q: "queue ?st = ''https://a.edu/courses/2024/'' # []"
    by (simp add: initial_def)
  have g: "get_html web (fetched ?st) ''https://a.edu/courses/2024/''
             = (Some ''seed'', [''https://a.edu/courses/2024/''])"
    by (simp add: get_html_def web_def initial_def raise_for_status_def)
  have h: "''seed'' \<noteq> []" by simp
  have a: "netloc ''https://b.org/courses/cs-202'' = ''b.org''" by code_simp
  have b: "netloc ''https://a.edu/courses/2024/'' = ''a.edu''" by code_simp
  have c: "two_digits ''https://b.org/courses/cs-202''"
    unfolding re_search_code_in_url[symmetric] by code_simp
  have v: "''https://b.org/courses/cs-202'' \<notin> visited_urls ?st"
    by (simp add: initial_def)
  have m: "''https://b.org/courses/cs-202''
             \<in> set (find_course_links web ''seed'' ''https://a.edu/courses/2024/'')"
    by (simp add: web_seed_links)
  note th = links_to_another_netloc_are_not_enqueued[OF q g h]
  have n: "netloc ''https://b.org/courses/cs-202'' \<noteq> netloc ''https://a.edu/courses/2024/''"
    unfolding a b by simp
  note q4 = th[THEN conjunct2, THEN conjunct2, THEN conjunct2, THEN conjunct1, rule_format, OF m n]
  note c5 = th[THEN conjunct2, THEN conjunct2, THEN conjunct2, THEN conjunct2, THEN conjunct1,
      rule_format, OF m conjI[OF v c]]
  from q4 have 1: "''https://b.org/courses/cs-202'' \<notin> set (queue (crawl_step web ?st))"
    by simp
  from a b 1 c5 show ?thesis by simp
qed

text \<open>
  C4 as stated fails: on the start page of the small web, served over https, the link
  to the same host over http has another scheme, and it is put on the queue.
\<close>

theorem link_with_another_scheme_is_enqueued:
  "scheme_and_host ''http://a.edu/courses/'' = (''http'', ''a.edu'')
   \<and> scheme_and_host ''https://a.edu/courses/2024/'' = (''https'', ''a.edu'')
   \<and> queue (crawl_step web (initial [''https://a.edu/courses/2024/'']))
       = [''https://a.edu/courses/algo-101'', ''http://a.edu/courses/'']"
  by code_simp

subsection \<open>The link keywords\<close>

lemma lower_char_dash: "lower_char x = CHR ''-'' \<longleftrightarrow> x = CHR ''-''"
proof -
  have "lower_char x = CHR ''-'' \<longleftrightarrow> (of_char (lower_char x) :: nat) = 45"
    by (subst char_eq_iff_code) simp
  also have "\<dots> \<longleftrightarrow> (of_char x :: nat) = 45"
    by (auto simp: of_char_lower_char is_upper_def Let_def)
  also have "\<dots> \<longleftrightarrow> x = CHR ''-''"
    by (subst char_eq_iff_code) simp
  finally show ?thesis .
qed

lemma lang_digits_dash:
  "lang [Atom is_digit 2 (Some 4), Atom is_letter 0 (Some 1), lit CHR ''-''] t \<longleftrightarrow>
     (\<exists>d x. t = d @ x @ ''-'' \<and> list_all is_digit d \<and> 2 \<le> length d \<and> length d \<le> 4
            \<and> list_all is_letter x \<and> length x \<le> 1)"
proof -
  have l: "lower_char CHR ''-'' = CHR ''-''"
    by (simp add: lower_char_dash)
  show ?thesis
    by (auto simp: allowed_lit l lower_char_dash)
qed

lemma re_search_digits_dash:
  "re_search [Atom is_digit 2 (Some 4), Atom is_letter 0 (Some 1), lit CHR ''-''] u \<longleftrightarrow> code_dash u"
proof
  assume "re_search [Atom is_digit 2 (Some 4), Atom is_letter 0 (Some 1), lit CHR ''-''] u"
  then obtain t where t: "sublist t u"
      "lang [Atom is_digit 2 (Some 4), Atom is_letter 0 (Some 1), lit CHR ''-''] t"
    unfolding re_search_iff has_match_def by blast
  from t(2) obtain d x where d: "t = d @ x @ ''-''" "list_all is_digit d" "2 \<le> length d"
      "list_all is_letter x" "length x \<le> 1"
    unfolding lang_digits_dash by blast
  from d(3) obtain d1 b where d1: "d = d1 @ [b]"
    by (cases d rule: rev_cases) auto
  with d(3) obtain d' a where "d1 = d' @ [a]"
    by (cases d1 rule: rev_cases) auto
  with d1 have abd: "d = d' @ [a, b]" by simp
  from t(1) obtain ps ss where "u = ps @ t @ ss" by (auto simp: sublist_def)
  then have "u = (ps @ d') @ [a, b] @ x @ ''-'' @ ss"
    using d(1) abd by simp
  moreover have "is_digit a" "is_digit b"
    using d(2) abd by simp_all
  ultimately show "code_dash u"
    unfolding code_dash_def using d(4,5) by blast
next
  assume "code_dash u"
  then obtain pre a b x post where u: "u = pre @ [a, b] @ x @ ''-'' @ post" "is_digit a" "is_digit b"
      "list_all is_letter x" "length x \<le> 1"
    unfolding code_dash_def by blast
  have "lang [Atom is_digit 2 (Some 4), Atom is_letter 0 (Some 1), lit CHR ''-''] ([a, b] @ x @ ''-'')"
    unfolding lang_digits_dash
    using u(2-5) by (intro exI[of _ "[a, b]"] exI[of _ x]) simp
  moreover have "sublist ([a, b] @ x @ ''-'') u"
    unfolding sublist_def using u(1) by (metis append.assoc)
  ultimately show "re_search [Atom is_digit 2 (Some 4), Atom is_letter 0 (Some 1), lit CHR ''-''] u"
    unfolding re_search_iff has_match_def by blast
qed

lemma course_link_keywords:
  "COURSE_LINK_KEYWORDS
     = map (map lit) PATH_KEYWORDS
       @ [[Atom is_digit 2 (Some 4), Atom is_letter 0 (Some 1), lit CHR ''-'']]"
  by (simp add: COURSE_LINK_KEYWORDS_def PATH_KEYWORDS_def)

lemma path_keywords_lower: "k \<in> set PATH_KEYWORDS \<Longrightarrow> lower k = k"
proof -
  have "list_all (\<lambda>k. lower k = k) PATH_KEYWORDS"
    by code_simp
  then show "k \<in> set PATH_KEYWORDS \<Longrightarrow> lower k = k"
    by (simp add: list_all_iff)
qed

lemma has_keyword_iff: "has_keyword u \<longleftrightarrow> keyword_in u"
proof -
  have "has_keyword u \<longleftrightarrow>
          (\<exists>k \<in> set PATH_KEYWORDS. re_search (map lit k) u)
          \<or> re_search [Atom is_digit 2 (Some 4), Atom is_letter 0 (Some 1), lit CHR ''-''] u"
    unfolding has_keyword_def course_link_keywords list_ex_iff by auto
  also have "\<dots> \<longleftrightarrow> keyword_in u"
    unfolding keyword_in_def re_search_digits_dash re_search_lits
    using path_keywords_lower by auto
  finally show ?thesis .
qed

text \<open>
  C5, as the program has it. A URL is returned exactly when it is the resolved target of
  a link of the page, holds a link keyword, and either holds two digits in a row or holds
  none of the markers. So a URL with a marker is left out when it holds no two digits
  in a row, and is returned in spite of the marker when it does.
\<close>

theorem marker_excludes_only_without_course_code:
  "(u \<in> set (find_course_links w html base_url) \<longleftrightarrow>
        u \<in> urljoin w base_url ` set (find_all_a_href (contents (BeautifulSoup w html)))
        \<and> keyword_in u \<and> (two_digits u \<or> \<not> contains_marker u))
   \<and> (contains_marker u \<and> \<not> two_digits u \<longrightarrow> u \<notin> set (find_course_links w html base_url))
   \<and> (u \<in> urljoin w base_url ` set (find_all_a_href (contents (BeautifulSoup w html)))
        \<and> keyword_in u \<and> two_digits u \<longrightarrow> u \<in> set (find_course_links w html base_url))"
  by (auto simp: set_find_course_links retained_iff has_keyword_iff)

theorem marker_excludes_only_without_course_code_witness:
  "contains_marker ''https://a.edu/courses/#top''
   \<and> ''https://a.edu/courses/#top'' \<notin> set (find_course_links web_links ''links'' ''https://a.edu/'')
   \<and> contains_marker ''mailto:courses/@a.edu''
   \<and> ''mailto:courses/@a.edu'' \<notin> set (find_course_links web_links ''links'' ''https://a.edu/'')"
proof -
  have m1: "contains_marker ''https://a.edu/courses/#top''"
    by (simp add: contains_marker_def)
  have d1: "\<not> two_digits ''https://a.edu/courses/#top''"
    unfolding re_search_code_in_url[symmetric] by code_simp
  have m2: "contains_marker ''mailto:courses/@a.edu''"
    unfolding contains_marker_def by code_simp
  have d2: "\<not> two_digits ''mailto:courses/@a.edu''"
    unfolding re_search_code_in_url[symmetric] by code_simp
  note a = marker_excludes_only_without_course_code[of "''https://a.edu/courses/#top''" web_links
      "''links''" "''https://a.edu/''", THEN conjunct2, THEN conjunct1, rule_format, OF conjI[OF m1 d1]]
  note b = marker_excludes_only_without_course_code[of "''mailto:courses/@a.edu''" web_links
      "''links''" "''https://a.edu/''", THEN conjunct2, THEN conjunct1, rule_format, OF conjI[OF m2 d2]]
  from m1 a m2 b show ?thesis by simp
qed

text \<open>
  C5 as stated fails: a link with a fragment whose URL holds two digits in a row is
  returned, the links with a marker and no two digits in a row are not.
\<close>

theorem link_with_fragment_and_course_code_is_returned:
  "contains_marker ''https://a.edu/courses/cs-101#syllabus''
   \<and> find_course_links web_links ''links'' ''https://a.edu/''
       = [''https://a.edu/courses/cs-101#syllabus'']"
proof -
  have "contains_marker ''https://a.edu/courses/cs-101#syllabus''"
    by (simp add: contains_marker_def)
  moreover have "find_course_links web_links ''links'' ''https://a.edu/''
       = [''https://a.edu/courses/cs-101#syllabus'']"
    by code_simp
  ultimately show ?thesis by simp
qed

subsection \<open>Failed requests\<close>

lemma get_html_fails: "fails w (length log) url \<Longrightarrow> get_html w log url = (None, log @ [url])"
  by (auto simp: fails_def get_html_def split: http_result.splits)

text \<open>
  C8, as the program has it. A request that ends in a connection error, in a timeout or
  in a status from 400 to 599 makes \<open>get_html\<close> return \<open>None\<close>. In the first loop the
  round then only takes the URL off the queue, and the loop goes on with the rest of the
  queue; in the second loop the URL yields no record and the loop goes on with the other
  candidates. Nothing is raised.
\<close>

theorem failed_request_skips_one_url:
  assumes "fails w (length (fetched st)) url"
  shows "get_html w (fetched st) url = (None, fetched st @ [url])
       \<and> (queue st = url # rest \<longrightarrow>
            crawl_step w st = st\<lparr>queue := rest, fetched := fetched st @ [url]\<rparr>
            \<and> crawl w (Suc fuel) st = crawl w fuel (st\<lparr>queue := rest, fetched := fetched st @ [url]\<rparr>))
       \<and> scrape_loop w (url # urls) st = scrape_loop w urls (st\<lparr>fetched := fetched st @ [url]\<rparr>)"
proof -
  note g = get_html_fails[OF assms]
  have step: "crawl_step w st = st\<lparr>queue := rest, fetched := fetched st @ [url]\<rparr>"
    if "queue st = url # rest"
    using that g by (simp add: crawl_step_def truthy_def)
  have loop: "crawl w (Suc fuel) st = crawl w fuel (st\<lparr>queue := rest, fetched := fetched st @ [url]\<rparr>)"
    if "queue st = url # rest"
    using that step by simp
  have "scrape_prerequisites w (fetched st) url = (None, fetched st @ [url])"
    using g by (simp add: scrape_prerequisites_def truthy_def)
  then have "scrape_loop w (url # urls) st = scrape_loop w urls (st\<lparr>fetched := fetched st @ [url]\<rparr>)"
    by (simp add: keep_def)
  with g step loop show ?thesis by blast
qed

theorem failed_request_skips_one_url_witness:
  "crawl_step web \<lparr>all_prereqs = [], queue = [''http://a.edu/courses/'', ''https://b.org/courses/cs-202''],
                    visited_urls = {}, course_urls_to_scrape = [], fetched = [],
                    raised = None, output_file = None\<rparr>
     = \<lparr>all_prereqs = [], queue = [''https://b.org/courses/cs-202''],
        visited_urls = {}, course_urls_to_scrape = [], fetched = [''http://a.edu/courses/''],
        raised = None, output_file = None\<rparr>
   \<and> scrape_loop web [''https://b.org/courses/cs-202'']
        \<lparr>all_prereqs = [], queue = [], visited_urls = {}, course_urls_to_scrape = [], fetched = [],
         raised = None, output_file = None\<rparr>
     = \<lparr>all_prereqs = [], queue = [], visited_urls = {}, course_urls_to_scrape = [],
        fetched = [''https://b.org/courses/cs-202''], raised = None, output_file = None\<rparr>"
proof -
  let ?s1 = "\<lparr>all_prereqs = [], queue = [''http://a.edu/courses/'', ''https://b.org/courses/cs-202''],
                    visited_urls = {}, course_urls_to_scrape = [], fetched = [],
                    raised = None, output_file = None\<rparr>"
  let ?s2 = "\<lparr>all_prereqs = [], queue = [], visited_urls = {}, course_urls_to_scrape = [], fetched = [],
         raised = None, output_file = None\<rparr>"
  have f1: "fails web (length (fetched ?s1)) ''http://a.edu/courses/''"
    by (simp add: fails_def web_def)
  have f2: "fails web (length (fetched ?s2)) ''https://b.org/courses/cs-202''"
    by (simp add: fails_def web_def raise_for_status_def)
  from failed_request_skips_one_url[OF f1, of "[''https://b.org/courses/cs-202'']"]
       failed_request_skips_one_url[OF f2, of _ _ "[]"]
  show ?thesis by simp
qed

text \<open>
  C8 as stated fails on a status that is neither 2xx nor an error for
  \<open>raise_for_status\<close>: the text of a 300 response is returned.
\<close>

theorem status_300_is_not_a_failure:
  "requests_get web_300 0 ''https://a.edu/'' = Response 300 ''choices''
   \<and> get_html web_300 [] ''https://a.edu/'' = (Some ''choices'', [''https://a.edu/''])"
  by (simp add: web_300_def get_html_def raise_for_status_def)

subsection \<open>The line printed for a kept record\<close>

lemma found_line_raises:
  "found_line [(''title'', t), (''prerequisites'', p), (''source'', u)] = Inl (KeyError ''prereqs'')"
  by (simp add: found_line_def dict_index_def)

lemma scrape_prerequisites_shape:
  "fst (scrape_prerequisites w log url) = Some d \<Longrightarrow>
   \<exists>t p. d = [(''title'', t), (''prerequisites'', p), (''source'', url)]"
  by (auto simp: scrape_prerequisites_def Let_def split: prod.splits if_splits)

lemma kept_record_raises:
  assumes "keep (fst (scrape_prerequisites w (fetched st) url)) = Inr True"
  shows "raised (scrape_loop w (url # urls) st) = Some (KeyError ''prereqs'')
       \<and> all_prereqs (scrape_loop w (url # urls) st)
           = all_prereqs st @ [the (fst (scrape_prerequisites w (fetched st) url))]
       \<and> fetched (scrape_loop w (url # urls) st) = fetched st @ [url]"
proof -
  obtain data log where d: "scrape_prerequisites w (fetched st) url = (data, log)"
    by (cases "scrape_prerequisites w (fetched st) url")
  have l: "log = fetched st @ [url]"
    using scrape_prerequisites_log[of w "fetched st" url] d by simp
  from assms d obtain r where r: "data = Some r"
    by (cases data) (auto simp: keep_def)
  then obtain t p where "r = [(''title'', t), (''prerequisites'', p), (''source'', url)]"
    using scrape_prerequisites_shape[of w "fetched st" url r] d by auto
  then have "found_line (the data) = Inl (KeyError ''prereqs'')"
    using r found_line_raises by simp
  then show ?thesis
    using assms d l by (simp add: Let_def)
qed

lemma scrape_loop_raised_or_empty:
  "raised st = None \<Longrightarrow> all_prereqs st = []
   \<Longrightarrow> raised (scrape_loop w urls st) = None \<Longrightarrow> all_prereqs (scrape_loop w urls st) = []"
proof (induction urls arbitrary: st)
  case Nil
  then show ?case by simp
next
  case (Cons url urls)
  obtain data log where d: "scrape_prerequisites w (fetched st) url = (data, log)"
    by (cases "scrape_prerequisites w (fetched st) url")
  show ?case
  proof (cases "keep data")
    case (Inl e)
    then show ?thesis using Cons.prems d by (simp add: Let_def)
  next
    case (Inr b)
    show ?thesis
    proof (cases b)
      case True
      then have "raised (scrape_loop w (url # urls) st) = Some (KeyError ''prereqs'')"
        using kept_record_raises[of w st url urls] d Inr by simp
      then show ?thesis using Cons.prems by simp
    next
      case False
      then have "scrape_loop w (url # urls) st = scrape_loop w urls (st\<lparr>fetched := log\<rparr>)"
        using d Inr by (simp add: Let_def)
      then show ?thesis
        using Cons.IH[of "st\<lparr>fetched := log\<rparr>"] Cons.prems by simp
    qed
  qed
qed

text \<open>
  C1 fails on the program. The line printed after a record is appended reads
  \<open>data['prereqs']\<close>, a key no record has: the first record that is kept ends the run
  with \<open>KeyError\<close>, the candidates after it are not requested and the file is not
  written. When the file is written, it holds the empty list.
\<close>

theorem first_kept_record_ends_the_run:
  assumes "traversal w seeds fuel = Some t"
  shows "(\<forall>before url after.
            course_urls_to_scrape t = before @ url # after
            \<and> scrape_loop w before t = t\<lparr>fetched := fetched t @ before\<rparr>
            \<and> keep (fst (scrape_prerequisites w (fetched t @ before) url)) = Inr True
            \<longrightarrow> (\<exists>st. main w seeds fuel = Some st
                  \<and> raised st = Some (KeyError ''prereqs'')
                  \<and> output_file st = None
                  \<and> fetched st = fetched t @ before @ [url]))
       \<and> (\<forall>st out. main w seeds fuel = Some st \<and> output_file st = Some out \<longrightarrow> out = [])"
proof -
  let ?s = "scrape_loop w (course_urls_to_scrape t) t"
  have m: "main w seeds fuel = Some (write_output ?s)"
    using assms by (simp add: main_def)
  note e = traversal_nothing_scraped[OF assms]
  have app: "scrape_loop w (xs @ ys) s = scrape_loop w ys (scrape_loop w xs s)"
    if "raised (scrape_loop w xs s) = None" for xs ys s
    using that
  proof (induction xs arbitrary: s)
    case Nil
    then show ?case by simp
  next
    case (Cons x xs)
    obtain data log where d: "scrape_prerequisites w (fetched s) x = (data, log)"
      by (cases "scrape_prerequisites w (fetched s) x")
    show ?case
      using Cons d by (auto simp: Let_def split: sum.splits bool.splits)
  qed
  have 1: "\<exists>st. main w seeds fuel = Some st
                  \<and> raised st = Some (KeyError ''prereqs'')
                  \<and> output_file st = None
                  \<and> fetched st = fetched t @ before @ [url]"
    if c: "course_urls_to_scrape t = before @ url # after"
      and b: "scrape_loop w before t = t\<lparr>fetched := fetched t @ before\<rparr>"
      and k: "keep (fst (scrape_prerequisites w (fetched t @ before) url)) = Inr True"
    for before url after
  proof -
    let ?b = "t\<lparr>fetched := fetched t @ before\<rparr>"
    have "raised (scrape_loop w before t) = None"
      using b e by simp
    then have s: "?s = scrape_loop w (url # after) ?b"
      using app[of before t "url # after"] b c by simp
    have k': "keep (fst (scrape_prerequisites w (fetched ?b) url)) = Inr True"
      using k by simp
    from kept_record_raises[OF k', of after]
    have "raised ?s = Some (KeyError ''prereqs'')" "fetched ?s = fetched t @ before @ [url]"
      using s by simp_all
    moreover have "output_file ?s = None"
      using e by (simp add: scrape_loop_frame)
    ultimately show ?thesis
      using m by (simp add: write_output_def)
  qed
  have 2: "out = []" if "main w seeds fuel = Some st \<and> output_file st = Some out" for st out
  proof -
    from that m have st: "st = write_output ?s" and o: "output_file (write_output ?s) = Some out"
      by simp_all
    have n: "output_file ?s = None"
      using e by (simp add: scrape_loop_frame)
    with o have r: "raised ?s = None"
      by (auto simp: write_output_def split: if_splits)
    have "all_prereqs ?s = []"
      using scrape_loop_raised_or_empty[OF _ _ r] e by simp
    moreover have "out = all_prereqs ?s"
      using write_output_file[OF o n] .
    ultimately show ?thesis by simp
  qed
  from 1 2 show ?thesis by blast
qed

theorem first_kept_record_ends_the_run_witness:
  "main web [''https://a.edu/courses/2024/''] 5 =
     Some \<lparr>all_prereqs = [[(''title'', ''Intro to Algorithms''),
                           (''prerequisites'', ''CS 101, MATH 201''),
                           (''source'', ''https://a.edu/courses/algo-101'')]],
           queue = [],
           visited_urls = {''https://a.edu/courses/2024/'', ''https://a.edu/courses/algo-101'',
                           ''http://a.edu/courses/'', ''https://b.org/courses/cs-202''},
           course_urls_to_scrape = [''https://a.edu/courses/algo-101'', ''https://b.org/courses/cs-202''],
           fetched = [''https://a.edu/courses/2024/'', ''https://a.edu/courses/algo-101'',
                      ''http://a.edu/courses/'', ''https://a.edu/courses/algo-101''],
           raised = Some (KeyError ''prereqs''),
           output_file = None\<rparr>"
proof -
  have k: "keep (fst (scrape_prerequisites web
             [''https://a.edu/courses/2024/'', ''https://a.edu/courses/algo-101'', ''http://a.edu/courses/'']
             ''https://a.edu/courses/algo-101'')) = Inr True"
    by code_simp
  from first_kept_record_ends_the_run[OF web_traversal] k web_run
  show ?thesis by simp
qed

section \<open>The lookup\<close>




lemma ascii_append: "ascii (a @ b) = ascii a @ ascii b"
  by (simp add: ascii_def)








end
